theory Spec2Isabelle
  imports Complex_Main "HOL-Library.While_Combinator"
begin

section \<open>Grid maps (include/map/Map.h, src/map/Map.cpp)\<close>

text \<open>
  Cell coordinates are \<open>glm::ivec2\<close> (pairs of \<open>int\<close>), points are \<open>glm::vec2\<close>.
  The program computes with \<open>float\<close>; the model computes with exact reals, so rounding
  is not part of it. Grid sizes are \<open>std::size_t\<close> and are assumed to fit an \<open>int\<close>,
  as the casts of the source assume.
\<close>

type_synonym ivec2 = "int \<times> int"
type_synonym vec2 = "real \<times> real"

record Metadata =
  width :: nat
  height :: nat
  resolution :: real

definition cellCount :: "Metadata \<Rightarrow> nat" where
  "cellCount m = width m * height m"

record Grid =
  m_metadata :: Metadata
  m_cells :: "real list"

definition s_missingData :: real where
  "s_missingData = -1"

section \<open>Costmap layer (src/map/CostmapLayer.cpp)\<close>

record CostmapLayer =
  c_metadata :: Metadata
  c_cells :: "real list"
  m_inflationMask :: "nat list"
  m_inflationCenters :: "vec2 list"
  c_initialized :: bool

datatype usage_error = NotInitialized | SizeMismatch

definition s_obstacleThreshold :: real where
  "s_obstacleThreshold = 1"

definition initialize :: "CostmapLayer \<Rightarrow> Metadata \<Rightarrow> CostmapLayer" where
  "initialize L md =
     L\<lparr>c_metadata := md,
       c_cells := replicate (cellCount md) 0,
       m_inflationMask := replicate (cellCount md) 0,
       m_inflationCenters := [],
       c_initialized := True\<rparr>"

text \<open>A default-constructed layer.\<close>

definition newLayer :: CostmapLayer where
  "newLayer = \<lparr>c_metadata = \<lparr>width = 0, height = 0, resolution = 1\<rparr>, c_cells = [],
                m_inflationMask = [], m_inflationCenters = [], c_initialized = False\<rparr>"

text \<open>The body of the innermost loop of \<open>update\<close>, for the offset \<open>(dx, dy)\<close> around
  the obstacle cell \<open>(baseX, baseY)\<close>.\<close>

definition stamp :: "real list \<Rightarrow> real \<Rightarrow> int \<Rightarrow> int \<Rightarrow> int \<Rightarrow> CostmapLayer \<Rightarrow> int \<Rightarrow> CostmapLayer" where
  "stamp baseCells radiusSquared baseX baseY dy L dx =
     (let nx = baseX + dx; ny = baseY + dy in
      if nx < 0 \<or> nx \<ge> int (width (c_metadata L)) then L
      else if real_of_int (dx * dx + dy * dy) > radiusSquared then L
      else
        let nIdx = nat ny * width (c_metadata L) + nat nx;
            baseValue = baseCells ! nIdx
        in if baseValue \<ge> s_obstacleThreshold then L
           else if baseValue \<le> s_missingData then L
           else if c_cells L ! nIdx \<ge> s_obstacleThreshold then
             (if m_inflationMask L ! nIdx = 0
              then L\<lparr>m_inflationMask := (m_inflationMask L)[nIdx := 1],
                     m_inflationCenters := m_inflationCenters L @ [(real_of_int nx + 0.5, real_of_int ny + 0.5)]\<rparr>
              else L)
           else
             (let L' = L\<lparr>c_cells := (c_cells L)[nIdx := s_obstacleThreshold]\<rparr> in
              if m_inflationMask L' ! nIdx = 0
              then L'\<lparr>m_inflationMask := (m_inflationMask L')[nIdx := 1],
                      m_inflationCenters := m_inflationCenters L' @ [(real_of_int nx + 0.5, real_of_int ny + 0.5)]\<rparr>
              else L'))"

definition stampRow :: "real list \<Rightarrow> real \<Rightarrow> int \<Rightarrow> int \<Rightarrow> int \<Rightarrow> CostmapLayer \<Rightarrow> int \<Rightarrow> CostmapLayer" where
  "stampRow baseCells radiusSquared radiusCeil baseX baseY L dy =
     (let ny = baseY + dy in
      if ny < 0 \<or> ny \<ge> int (height (c_metadata L)) then L
      else foldl (stamp baseCells radiusSquared baseX baseY dy) L [- radiusCeil .. radiusCeil])"

definition inflateFrom :: "real list \<Rightarrow> real \<Rightarrow> int \<Rightarrow> CostmapLayer \<Rightarrow> nat \<Rightarrow> CostmapLayer" where
  "inflateFrom baseCells radiusSquared radiusCeil L idx =
     (if baseCells ! idx < s_obstacleThreshold then L
      else
        let baseX = int (idx mod width (c_metadata L));
            baseY = int (idx div width (c_metadata L))
        in foldl (stampRow baseCells radiusSquared radiusCeil baseX baseY) L [- radiusCeil .. radiusCeil])"

text \<open>\<open>CostmapLayer::update\<close>: the pair of the exception thrown (if any) and the layer
  after the call.\<close>

definition update :: "CostmapLayer \<Rightarrow> real list \<Rightarrow> real \<Rightarrow> usage_error option \<times> CostmapLayer" where
  "update L baseCells inflationRadiusCells =
     (if \<not> c_initialized L then (Some NotInitialized, L)
      else if length baseCells \<noteq> cellCount (c_metadata L) then (Some SizeMismatch, L)
      else
        let L1 = L\<lparr>c_cells := baseCells,
                    m_inflationMask := replicate (length (m_inflationMask L)) 0,
                    m_inflationCenters := []\<rparr>
        in if width (c_metadata L1) = 0 \<or> height (c_metadata L1) = 0 then (None, L1)
           else
             let radius = max inflationRadiusCells 0 in
             if radius \<le> 0 then (None, L1)
             else
               let radiusSquared = radius * radius;
                   radiusCeil = max 1 \<lceil>radius\<rceil>
               in (None, foldl (inflateFrom baseCells radiusSquared radiusCeil) L1 [0 ..< length baseCells]))"







section \<open>Planner types (include/path/PlannerTypes.h)\<close>

datatype PathStyle = Polyline

datatype PlannerPositionKind = Cell | Point

record PlannerPosition =
  kind :: PlannerPositionKind
  cell :: ivec2
  point :: vec2

definition CellPosition :: "ivec2 \<Rightarrow> PlannerPosition" where
  "CellPosition c = \<lparr>kind = Cell, cell = c, point = (0, 0)\<rparr>"

definition PointPosition :: "vec2 \<Rightarrow> PlannerPosition" where
  "PointPosition p = \<lparr>kind = Point, cell = (0, 0), point = p\<rparr>"

definition isCell :: "PlannerPosition \<Rightarrow> bool" where
  "isCell pos = (kind pos = Cell)"

record PlannedPath =
  style :: PathStyle
  waypoints :: "vec2 list"
  exploredCells :: "ivec2 list"
  success :: bool

text \<open>A default-constructed \<open>PlannedPath\<close>.\<close>

definition emptyPath :: PlannedPath where
  "emptyPath = \<lparr>style = Polyline, waypoints = [], exploredCells = [], success = False\<rparr>"

text \<open>The exceptions the planners throw (\<open>std::runtime_error\<close> with these causes).\<close>

datatype planner_error = MapNotSet | StartNotSet | GoalNotSet | NotCellBased

text \<open>The centre of a cell, as both planners emit it: \<open>(x + 0.5f, y + 0.5f)\<close>.\<close>

definition center :: "ivec2 \<Rightarrow> vec2" where
  "center c = (real_of_int (fst c) + 0.5, real_of_int (snd c) + 0.5)"

section \<open>Planner utilities (src/path/PlannerUtils.cpp)\<close>

text \<open>\<open>Grid::at\<close>. Its \<open>std::out_of_range\<close> is not modelled: every call of the
  planners is guarded by \<open>isCellWithinBounds\<close>.\<close>

definition gridAt :: "Grid \<Rightarrow> nat \<Rightarrow> nat \<Rightarrow> real" where
  "gridAt grid x y = m_cells grid ! (y * width (m_metadata grid) + x)"

definition isMissing :: "Grid \<Rightarrow> nat \<Rightarrow> nat \<Rightarrow> bool" where
  "isMissing grid x y = (gridAt grid x y = s_missingData)"

definition isCellWithinBounds :: "Grid \<Rightarrow> ivec2 \<Rightarrow> bool" where
  "isCellWithinBounds grid c =
     (if fst c < 0 \<or> snd c < 0 then False
      else if fst c \<ge> int (width (m_metadata grid)) \<or> snd c \<ge> int (height (m_metadata grid)) then False
      else True)"

definition isTraversableCell :: "Grid \<Rightarrow> ivec2 \<Rightarrow> bool" where
  "isTraversableCell grid c =
     (if \<not> isCellWithinBounds grid c then False
      else
        let x = nat (fst c); y = nat (snd c) in
        if isMissing grid x y then False
        else if gridAt grid x y \<ge> 1 then False
        else True)"

text \<open>Both the literal \<open>1.41421356237f\<close> of the heuristics and \<open>std::sqrt(2.0f)\<close> of
  \<open>traversalCost\<close> are the \<open>float\<close> nearest to the square root of two.\<close>

definition sqrt2f :: real where
  "sqrt2f = 11863283 / 8388608"

definition traversalCost :: "Grid \<Rightarrow> ivec2 \<Rightarrow> bool \<Rightarrow> real" where
  "traversalCost grid c diagonal =
     (let v = gridAt grid (nat (fst c)) (nat (snd c));
          clamped = (if v < 0 then 0 else v);
          baseCost = (if diagonal then sqrt2f else 1)
      in baseCost * (1 + clamped))"

text \<open>The octile heuristic; \<open>heuristic\<close> of the A* planner and \<open>computeHeuristic\<close> of
  the D* Lite planner have the same body.\<close>

definition computeHeuristic :: "ivec2 \<Rightarrow> ivec2 \<Rightarrow> real" where
  "computeHeuristic a b =
     (let dx = \<bar>fst b - fst a\<bar>; dy = \<bar>snd b - snd a\<bar>;
          minDelta = min dx dy; maxDelta = max dx dy
      in real_of_int (maxDelta - minDelta) + sqrt2f * real_of_int minDelta)"

text \<open>The eight offsets, in the order both planners list them.\<close>

definition offsets :: "ivec2 list" where
  "offsets = [(1, 0), (-1, 0), (0, 1), (0, -1), (1, 1), (1, -1), (-1, 1), (-1, -1)]"

definition addCell :: "ivec2 \<Rightarrow> ivec2 \<Rightarrow> ivec2" where
  "addCell c off = (fst c + fst off, snd c + snd off)"

text \<open>
  \<open>std::priority_queue::top\<close> returns an entry that no other entry precedes; which one
  among several such entries is left to the heap. The queue is a list, \<open>precedes a b\<close>
  says that \<open>a\<close> leaves the queue strictly before \<open>b\<close>, and the function \<open>tie\<close> picks among
  the candidates, so that a statement for every \<open>tie\<close> holds for every heap.
\<close>

definition topIndex :: "('a list \<Rightarrow> nat) \<Rightarrow> ('a \<Rightarrow> 'a \<Rightarrow> bool) \<Rightarrow> 'a list \<Rightarrow> nat" where
  "topIndex tie precedes xs =
     (let cands = filter (\<lambda>i. \<forall>e\<in>set xs. \<not> precedes e (xs ! i)) [0 ..< length xs]
      in cands ! (tie xs mod length cands))"

text \<open>The choice of the first candidate, for the runs on concrete grids.\<close>

definition firstTie :: "'a list \<Rightarrow> nat" where
  "firstTie xs = 0"

definition removeAt :: "nat \<Rightarrow> 'a list \<Rightarrow> 'a list" where
  "removeAt i xs = take i xs @ drop (Suc i) xs"

text \<open>What the constructor of \<open>Grid\<close> checks before it accepts its arguments.\<close>

definition gridOk :: "Grid \<Rightarrow> bool" where
  "gridOk grid \<longleftrightarrow>
     width (m_metadata grid) \<noteq> 0 \<and> height (m_metadata grid) \<noteq> 0 \<and>
     length (m_cells grid) = cellCount (m_metadata grid)"
section \<open>D* Lite planner (src/path/DStarLitePlanner.cpp)\<close>

text \<open>A \<open>float\<close> that may be \<open>+infinity\<close>: the values of \<open>g\<close>, \<open>rhs\<close> and the keys.
  No operation of the planner produces a NaN or \<open>-infinity\<close> from such values.\<close>

datatype efloat = Fin real | PInf

instantiation efloat :: linorder
begin

fun less_eq_efloat :: "efloat \<Rightarrow> efloat \<Rightarrow> bool" where
  "less_eq_efloat (Fin a) (Fin b) = (a \<le> b)"
| "less_eq_efloat (Fin a) PInf = True"
| "less_eq_efloat PInf (Fin b) = False"
| "less_eq_efloat PInf PInf = True"

fun less_efloat :: "efloat \<Rightarrow> efloat \<Rightarrow> bool" where
  "less_efloat (Fin a) (Fin b) = (a < b)"
| "less_efloat (Fin a) PInf = True"
| "less_efloat PInf (Fin b) = False"
| "less_efloat PInf PInf = False"

instance
proof
  fix x y z :: efloat
  show "(x < y) = (x \<le> y \<and> \<not> y \<le> x)" by (cases x; cases y) auto
  show "x \<le> x" by (cases x) auto
  show "x \<le> y \<Longrightarrow> y \<le> z \<Longrightarrow> x \<le> z" by (cases x; cases y; cases z) auto
  show "x \<le> y \<Longrightarrow> y \<le> x \<Longrightarrow> x = y" by (cases x; cases y) auto
  show "x \<le> y \<or> y \<le> x" by (cases x; cases y) auto
qed

end

instantiation efloat :: plus
begin

fun plus_efloat :: "efloat \<Rightarrow> efloat \<Rightarrow> efloat" where
  "plus_efloat (Fin a) (Fin b) = Fin (a + b)"
| "plus_efloat (Fin a) PInf = PInf"
| "plus_efloat PInf b = PInf"

instance ..

end

definition isfinite :: "efloat \<Rightarrow> bool" where
  "isfinite x = (case x of Fin _ \<Rightarrow> True | PInf \<Rightarrow> False)"

record NodeData =
  nd_g :: efloat
  nd_rhs :: efloat

record Key =
  k1 :: efloat
  k2 :: efloat

record QueueEntry =
  q_cell :: ivec2
  q_key :: Key
  q_sequence :: nat

record DStarLitePlanner =
  m_map :: Grid
  m_startCell :: ivec2
  m_goalCell :: ivec2
  m_lastStart :: ivec2
  m_hasMap :: bool
  m_hasStart :: bool
  m_hasGoal :: bool
  m_initialized :: bool
  m_keyModifier :: real
  m_queueSequence :: nat
  m_openList :: "QueueEntry list"
  m_nodeInfo :: "ivec2 \<Rightarrow> NodeData option"
  m_openTable :: "ivec2 \<Rightarrow> Key option"
  m_pendingUpdates :: "ivec2 list"
  m_expandedNodes :: "ivec2 list"

definition resetPlannerState :: "DStarLitePlanner \<Rightarrow> DStarLitePlanner" where
  "resetPlannerState s =
     s\<lparr>m_openList := [], m_nodeInfo := Map.empty, m_openTable := Map.empty,
       m_expandedNodes := [], m_keyModifier := 0, m_queueSequence := 0,
       m_initialized := False\<rparr>"

text \<open>The constructor: the member initialisers, then \<open>resetPlannerState\<close>.\<close>

definition newPlanner :: DStarLitePlanner where
  "newPlanner = resetPlannerState
     \<lparr>m_map = \<lparr>m_metadata = \<lparr>width = 0, height = 0, resolution = 1\<rparr>, m_cells = []\<rparr>,
      m_startCell = (0, 0), m_goalCell = (0, 0), m_lastStart = (0, 0),
      m_hasMap = False, m_hasStart = False, m_hasGoal = False, m_initialized = False,
      m_keyModifier = 0, m_queueSequence = 0, m_openList = [], m_nodeInfo = Map.empty,
      m_openTable = Map.empty, m_pendingUpdates = [], m_expandedNodes = []\<rparr>"

definition blocked :: "real \<Rightarrow> bool" where
  "blocked v = (v \<ge> 1 \<or> v = s_missingData)"

text \<open>The body of the comparison loop of \<open>setMap\<close>. \<open>m_pendingUpdates\<close> is a
  \<open>std::unordered_set\<close>: a list without repetitions, whose order stands for the
  iteration order of the set.\<close>

definition diffCell :: "real list \<Rightarrow> real list \<Rightarrow> nat \<Rightarrow> ivec2 list \<Rightarrow> nat \<Rightarrow> ivec2 list" where
  "diffCell oldCells newCells w pending idx =
     (let oldBlocked = blocked (oldCells ! idx);
          newBlocked = blocked (newCells ! idx)
      in if oldBlocked \<noteq> newBlocked
         then List.insert (int (idx mod w), int (idx div w)) pending
         else pending)"

definition setMap :: "DStarLitePlanner \<Rightarrow> Grid \<Rightarrow> DStarLitePlanner" where
  "setMap s grid =
     (if \<not> m_hasMap s then
        (resetPlannerState (s\<lparr>m_map := grid, m_hasMap := True\<rparr>))\<lparr>m_pendingUpdates := []\<rparr>
      else
        let oldMeta = m_metadata (m_map s); newMeta = m_metadata grid;
            dimensionChanged = (width oldMeta \<noteq> width newMeta \<or> height oldMeta \<noteq> height newMeta)
        in if dimensionChanged then
             (resetPlannerState (s\<lparr>m_map := grid, m_pendingUpdates := []\<rparr>))\<lparr>m_hasMap := True\<rparr>
           else
             let oldCells = m_cells (m_map s); newCells = m_cells grid;
                 total = min (length oldCells) (length newCells)
             in s\<lparr>m_pendingUpdates :=
                    foldl (diffCell oldCells newCells (width newMeta)) (m_pendingUpdates s) [0 ..< total],
                  m_map := grid, m_hasMap := True\<rparr>)"

definition setStart :: "DStarLitePlanner \<Rightarrow> PlannerPosition \<Rightarrow> planner_error + DStarLitePlanner" where
  "setStart s position =
     (if \<not> isCell position then Inl NotCellBased
      else if \<not> m_hasMap s then
        Inr (s\<lparr>m_startCell := cell position, m_lastStart := cell position, m_hasStart := True\<rparr>)
      else
        let s1 = (if m_hasStart s
                  then s\<lparr>m_keyModifier := m_keyModifier s + computeHeuristic (m_lastStart s) (cell position)\<rparr>
                  else s);
            s2 = s1\<lparr>m_startCell := cell position\<rparr>;
            s3 = (if \<not> m_initialized s2 then s2\<lparr>m_lastStart := m_startCell s2\<rparr> else s2)
        in Inr (s3\<lparr>m_hasStart := True\<rparr>))"

definition setGoal :: "DStarLitePlanner \<Rightarrow> PlannerPosition \<Rightarrow> planner_error + DStarLitePlanner" where
  "setGoal s position =
     (if \<not> isCell position then Inl NotCellBased
      else Inr (s\<lparr>m_goalCell := cell position, m_hasGoal := True, m_initialized := False\<rparr>))"

definition isTrav :: "DStarLitePlanner \<Rightarrow> ivec2 \<Rightarrow> bool" where
  "isTrav s c = isTraversableCell (m_map s) c"

definition g :: "DStarLitePlanner \<Rightarrow> ivec2 \<Rightarrow> efloat" where
  "g s c = (case m_nodeInfo s c of None \<Rightarrow> PInf | Some nd \<Rightarrow> nd_g nd)"

definition rhs :: "DStarLitePlanner \<Rightarrow> ivec2 \<Rightarrow> efloat" where
  "rhs s c = (case m_nodeInfo s c of None \<Rightarrow> PInf | Some nd \<Rightarrow> nd_rhs nd)"

text \<open>\<open>dataFor\<close> is \<open>m_nodeInfo[cell]\<close>, which inserts a default \<open>NodeData\<close> for a new cell.\<close>

definition dataFor :: "DStarLitePlanner \<Rightarrow> ivec2 \<Rightarrow> NodeData" where
  "dataFor s c = (case m_nodeInfo s c of None \<Rightarrow> \<lparr>nd_g = PInf, nd_rhs = PInf\<rparr> | Some nd \<Rightarrow> nd)"

definition setG :: "DStarLitePlanner \<Rightarrow> ivec2 \<Rightarrow> efloat \<Rightarrow> DStarLitePlanner" where
  "setG s c v = s\<lparr>m_nodeInfo := (m_nodeInfo s)(c \<mapsto> (dataFor s c)\<lparr>nd_g := v\<rparr>)\<rparr>"

definition setRhs :: "DStarLitePlanner \<Rightarrow> ivec2 \<Rightarrow> efloat \<Rightarrow> DStarLitePlanner" where
  "setRhs s c v = s\<lparr>m_nodeInfo := (m_nodeInfo s)(c \<mapsto> (dataFor s c)\<lparr>nd_rhs := v\<rparr>)\<rparr>"

definition keyLess :: "Key \<Rightarrow> Key \<Rightarrow> bool" where
  "keyLess lhs rhs' =
     (if k1 lhs < k1 rhs' then True
      else if k1 lhs > k1 rhs' then False
      else k2 lhs < k2 rhs')"

definition calculateKey :: "DStarLitePlanner \<Rightarrow> ivec2 \<Rightarrow> Key" where
  "calculateKey s c =
     (let gVal = g s c; rhsVal = rhs s c; minVal = min gVal rhsVal
      in \<lparr>k1 = minVal + Fin (computeHeuristic (m_startCell s) c) + Fin (m_keyModifier s),
          k2 = minVal\<rparr>)"

definition pushOpen :: "DStarLitePlanner \<Rightarrow> ivec2 \<Rightarrow> Key \<Rightarrow> DStarLitePlanner" where
  "pushOpen s c key =
     s\<lparr>m_openList := m_openList s @ [\<lparr>q_cell = c, q_key = key, q_sequence = m_queueSequence s\<rparr>],
       m_queueSequence := m_queueSequence s + 1,
       m_openTable := (m_openTable s)(c \<mapsto> key)\<rparr>"

text \<open>The test \<open>getNeighbors\<close> applies to one offset before it pushes the candidate.\<close>

definition neighborOk :: "DStarLitePlanner \<Rightarrow> ivec2 \<Rightarrow> ivec2 \<Rightarrow> bool" where
  "neighborOk s c off =
     (let candidate = addCell c off in
      if \<not> isCellWithinBounds (m_map s) candidate then False
      else
        let diagonal = (fst off \<noteq> 0 \<and> snd off \<noteq> 0);
            adjA = (fst c + fst off, snd c);
            adjB = (fst c, snd c + snd off)
        in if diagonal \<and> (\<not> isCellWithinBounds (m_map s) adjA \<or> \<not> isCellWithinBounds (m_map s) adjB
                            \<or> \<not> isTrav s adjA \<or> \<not> isTrav s adjB) then False
           else if \<not> isTrav s candidate then False
           else True)"

definition getNeighbors :: "DStarLitePlanner \<Rightarrow> ivec2 \<Rightarrow> ivec2 list" where
  "getNeighbors s c = map (addCell c) (filter (neighborOk s c) offsets)"

definition edgeCost :: "DStarLitePlanner \<Rightarrow> ivec2 \<Rightarrow> ivec2 \<Rightarrow> efloat" where
  "edgeCost s from to =
     (if \<not> isCellWithinBounds (m_map s) to then PInf
      else
        let diagonal = (fst from \<noteq> fst to \<and> snd from \<noteq> snd to);
            adjA = (fst from, snd to);
            adjB = (fst to, snd from)
        in if diagonal \<and> (\<not> isCellWithinBounds (m_map s) adjA \<or> \<not> isCellWithinBounds (m_map s) adjB
                            \<or> \<not> isTrav s adjA \<or> \<not> isTrav s adjB) then PInf
           else if \<not> isTrav s to then PInf
           else Fin (traversalCost (m_map s) to diagonal))"

definition initializePlanner :: "DStarLitePlanner \<Rightarrow> DStarLitePlanner" where
  "initializePlanner s =
     (let s1 = resetPlannerState s;
          s2 = setRhs s1 (m_goalCell s1) (Fin 0);
          key = calculateKey s2 (m_goalCell s2);
          s3 = pushOpen s2 (m_goalCell s2) key
      in s3\<lparr>m_lastStart := m_startCell s3, m_initialized := True\<rparr>)"

text \<open>The loop of \<open>updateVertex\<close> that takes the minimum over the neighbours.\<close>

definition minRhsStep :: "DStarLitePlanner \<Rightarrow> ivec2 \<Rightarrow> efloat \<Rightarrow> ivec2 \<Rightarrow> efloat" where
  "minRhsStep s c minRhs neighbor =
     (let cost = edgeCost s c neighbor in
      if \<not> isfinite cost then minRhs else min minRhs (cost + g s neighbor))"

definition updateVertex :: "DStarLitePlanner \<Rightarrow> ivec2 \<Rightarrow> DStarLitePlanner" where
  "updateVertex s c =
     (let s1 = (if c = m_goalCell s then setRhs s c (Fin 0)
                else setRhs s c (foldl (minRhsStep s c) PInf (getNeighbors s c)))
      in if g s1 c \<noteq> rhs s1 c then pushOpen s1 c (calculateKey s1 c)
         else s1\<lparr>m_openTable := (m_openTable s1)(c := None)\<rparr>)"

definition applyPendingUpdates :: "DStarLitePlanner \<Rightarrow> DStarLitePlanner" where
  "applyPendingUpdates s =
     (if m_pendingUpdates s = [] then s
      else
        let toProcess = concat (map (\<lambda>c. c # getNeighbors s c) (m_pendingUpdates s));
            s1 = s\<lparr>m_pendingUpdates := []\<rparr>
        in foldl updateVertex s1 toProcess)"

text \<open>\<open>computeShortestPath\<close>: the state of its loop is the planner and the local
  \<open>expandedSet\<close>. \<open>queueBefore\<close> is \<open>QueueEntryCompare\<close> read as an order of leaving.\<close>

definition queueBefore :: "QueueEntry \<Rightarrow> QueueEntry \<Rightarrow> bool" where
  "queueBefore a b = keyLess (q_key a) (q_key b)"

definition queueTop :: "(QueueEntry list \<Rightarrow> nat) \<Rightarrow> DStarLitePlanner \<Rightarrow> QueueEntry" where
  "queueTop tie s = m_openList s ! topIndex tie queueBefore (m_openList s)"

definition queuePop :: "(QueueEntry list \<Rightarrow> nat) \<Rightarrow> DStarLitePlanner \<Rightarrow> DStarLitePlanner" where
  "queuePop tie s = s\<lparr>m_openList := removeAt (topIndex tie queueBefore (m_openList s)) (m_openList s)\<rparr>"

definition stale :: "DStarLitePlanner \<Rightarrow> QueueEntry \<Rightarrow> bool" where
  "stale s topEntry =
     (case m_openTable s (q_cell topEntry) of
        None \<Rightarrow> True
      | Some key \<Rightarrow> k1 key \<noteq> k1 (q_key topEntry) \<or> k2 key \<noteq> k2 (q_key topEntry))"

definition cspBreak :: "DStarLitePlanner \<Rightarrow> QueueEntry \<Rightarrow> bool" where
  "cspBreak s topEntry =
     (let startKey = calculateKey s (m_startCell s)
      in \<not> keyLess (q_key topEntry) startKey \<and> rhs s (m_startCell s) = g s (m_startCell s))"

definition cspCond :: "(QueueEntry list \<Rightarrow> nat) \<Rightarrow> DStarLitePlanner \<times> ivec2 set \<Rightarrow> bool" where
  "cspCond tie st =
     (let s = fst st in
      m_openList s \<noteq> [] \<and> (stale s (queueTop tie s) \<or> \<not> cspBreak s (queueTop tie s)))"

definition cspBody :: "(QueueEntry list \<Rightarrow> nat) \<Rightarrow> DStarLitePlanner \<times> ivec2 set \<Rightarrow> DStarLitePlanner \<times> ivec2 set" where
  "cspBody tie st =
     (let s = fst st; expandedSet = snd st; topEntry = queueTop tie s in
      if stale s topEntry then (queuePop tie s, expandedSet)
      else
        let s1 = queuePop tie s;
            s2 = s1\<lparr>m_openTable := (m_openTable s1)(q_cell topEntry := None)\<rparr>;
            s3 = (if q_cell topEntry \<notin> expandedSet
                  then s2\<lparr>m_expandedNodes := m_expandedNodes s2 @ [q_cell topEntry]\<rparr> else s2);
            expandedSet' = insert (q_cell topEntry) expandedSet;
            gOld = g s3 (q_cell topEntry);
            rhsVal = rhs s3 (q_cell topEntry)
        in if gOld > rhsVal then
             (let s4 = setG s3 (q_cell topEntry) rhsVal
              in (foldl updateVertex s4 (getNeighbors s4 (q_cell topEntry)), expandedSet'))
           else
             (let s4 = setG s3 (q_cell topEntry) PInf;
                  s5 = updateVertex s4 (q_cell topEntry)
              in (foldl updateVertex s5 (getNeighbors s5 (q_cell topEntry)), expandedSet')))"

definition computeShortestPath :: "(QueueEntry list \<Rightarrow> nat) \<Rightarrow> DStarLitePlanner \<Rightarrow> DStarLitePlanner option" where
  "computeShortestPath tie s =
     map_option fst (while_option (cspCond tie) (cspBody tie) (s\<lparr>m_expandedNodes := []\<rparr>, {}))"

definition isValidStartGoal :: "DStarLitePlanner \<Rightarrow> bool" where
  "isValidStartGoal s =
     (if \<not> m_hasMap s \<or> \<not> m_hasStart s \<or> \<not> m_hasGoal s then False
      else if \<not> isCellWithinBounds (m_map s) (m_startCell s)
              \<or> \<not> isCellWithinBounds (m_map s) (m_goalCell s) then False
      else if \<not> isTrav s (m_goalCell s) then False
      else if m_startCell s \<noteq> m_goalCell s \<and> \<not> isTrav s (m_startCell s) then False
      else True)"

text \<open>The inner loop of the path extraction: the best neighbour of \<open>current\<close>.\<close>

definition bestStep :: "DStarLitePlanner \<Rightarrow> ivec2 \<Rightarrow> efloat \<times> ivec2 \<Rightarrow> ivec2 \<Rightarrow> efloat \<times> ivec2" where
  "bestStep s current best neighbor =
     (let cost = edgeCost s current neighbor in
      if \<not> isfinite cost then best
      else
        let score = cost + g s neighbor in
        if score < fst best then (score, neighbor) else best)"

text \<open>The extraction loop \<open>for (i = 0; i < limit && current != m_goalCell; ++i)\<close>, by
  recursion on the iterations left; \<open>None\<close> is the \<open>return\<close> of a failed path inside it.\<close>

fun extractCells :: "DStarLitePlanner \<Rightarrow> nat \<Rightarrow> ivec2 \<Rightarrow> ivec2 list \<Rightarrow> ivec2 list option" where
  "extractCells s 0 current cells = Some cells"
| "extractCells s (Suc n) current cells =
     (if current = m_goalCell s then Some cells
      else
        let best = foldl (bestStep s current) (PInf, current) (getNeighbors s current) in
        if snd best = current \<or> \<not> isfinite (fst best) then None
        else extractCells s n (snd best) (cells @ [snd best]))"

text \<open>\<open>computePath\<close>, in its three parts. First, up to the call of
  \<open>computeShortestPath\<close>: the initialisation if it is due, the adjustment of the key
  modifier for a moved start, the pending updates and the update of the start.\<close>

definition preSearch :: "DStarLitePlanner \<Rightarrow> DStarLitePlanner" where
  "preSearch s =
     (let s1 = (if \<not> m_initialized s then initializePlanner s else s);
          s2 = (if m_lastStart s1 \<noteq> m_startCell s1
                then s1\<lparr>m_keyModifier := m_keyModifier s1 + computeHeuristic (m_lastStart s1) (m_startCell s1),
                        m_lastStart := m_startCell s1\<rparr>
                else s1);
          s3 = applyPendingUpdates s2
      in updateVertex s3 (m_startCell s3))"

text \<open>Last, after \<open>computeShortestPath\<close>: the path built from the planner it left.\<close>

definition postSearch :: "DStarLitePlanner \<Rightarrow> PlannedPath" where
  "postSearch s =
     (let path = emptyPath\<lparr>exploredCells := m_expandedNodes s\<rparr> in
      if \<not> isfinite (rhs s (m_startCell s)) then path
      else
        let limit = cellCount (m_metadata (m_map s)) + 1 in
        case extractCells s limit (m_startCell s) [m_startCell s] of
          None \<Rightarrow> path\<lparr>exploredCells := []\<rparr>
        | Some cells \<Rightarrow>
            if last cells \<noteq> m_goalCell s then path\<lparr>exploredCells := []\<rparr>
            else path\<lparr>waypoints := map center cells, success := True\<rparr>)"

text \<open>\<open>computePath\<close>: \<open>None\<close> when \<open>computeShortestPath\<close> does not return, else the
  planner after the call and the path returned.\<close>

definition computePath :: "(QueueEntry list \<Rightarrow> nat) \<Rightarrow> DStarLitePlanner \<Rightarrow> (DStarLitePlanner \<times> PlannedPath) option" where
  "computePath tie s =
     (if \<not> isValidStartGoal s then Some (s, emptyPath)
      else
        case computeShortestPath tie (preSearch s) of
          None \<Rightarrow> None
        | Some s' \<Rightarrow> Some (s', postSearch s'))"
section \<open>A* planner (src/path/AStarPlanner.cpp, include/path/PathPlannerBase.h)\<close>

record Node =
  n_cell :: ivec2
  n_g :: real
  n_f :: real

text \<open>\<open>NodeCompare\<close> read as an order of leaving: the smaller \<open>f\<close> leaves first.\<close>

definition nodeBefore :: "Node \<Rightarrow> Node \<Rightarrow> bool" where
  "nodeBefore a b = (n_f a < n_f b)"

record PathPlannerBase =
  p_map :: Grid
  p_start :: "PlannerPosition option"
  p_goal :: "PlannerPosition option"

definition ensureConfigured :: "PathPlannerBase \<Rightarrow> planner_error option" where
  "ensureConfigured p =
     (if width (m_metadata (p_map p)) = 0 \<or> height (m_metadata (p_map p)) = 0 then Some MapNotSet
      else if p_start p = None then Some StartNotSet
      else if p_goal p = None then Some GoalNotSet
      else None)"

text \<open>The locals of \<open>AStarPlanner::solve\<close> and its out-parameter \<open>path\<close>;
  \<open>a_returned\<close> is set by the \<open>return\<close> inside the loop, when the goal is popped.\<close>

record AStarState =
  openSet :: "Node list"
  cameFrom :: "ivec2 \<Rightarrow> ivec2 option"
  gScore :: "ivec2 \<Rightarrow> real option"
  fScore :: "ivec2 \<Rightarrow> real option"
  closedSet :: "ivec2 set"
  a_explored :: "ivec2 list"
  a_returned :: bool

text \<open>\<open>reconstructPath\<close>: the loop that follows \<open>cameFrom\<close>, then the reversal.\<close>

definition reconstructPath :: "(ivec2 \<Rightarrow> ivec2 option) \<Rightarrow> ivec2 \<Rightarrow> ivec2 list option" where
  "reconstructPath cf current =
     map_option (\<lambda>st. rev (snd st))
       (while_option (\<lambda>st. cf (fst st) \<noteq> None)
                     (\<lambda>st. (the (cf (fst st)), snd st @ [the (cf (fst st))]))
                     (current, [current]))"

text \<open>The body of the loop over the eight offsets, for the popped node \<open>current\<close>.\<close>

definition relax :: "Grid \<Rightarrow> ivec2 \<Rightarrow> Node \<Rightarrow> AStarState \<Rightarrow> ivec2 \<Rightarrow> AStarState" where
  "relax grid goalCell current st off =
     (let neighbor = addCell (n_cell current) off in
      if \<not> isCellWithinBounds grid neighbor \<or> \<not> isTraversableCell grid neighbor then st
      else
        let isDiagonal = (fst off \<noteq> 0 \<and> snd off \<noteq> 0);
            adjA = (fst (n_cell current) + fst off, snd (n_cell current));
            adjB = (fst (n_cell current), snd (n_cell current) + snd off)
        in if isDiagonal \<and> (\<not> isCellWithinBounds grid adjA \<or> \<not> isCellWithinBounds grid adjB
                              \<or> \<not> isTraversableCell grid adjA \<or> \<not> isTraversableCell grid adjB) then st
           else
             let st1 = (if gScore st (n_cell current) = None
                        then st\<lparr>gScore := (gScore st)(n_cell current \<mapsto> 0)\<rparr> else st);
                 tentativeG = the (gScore st1 (n_cell current)) + traversalCost grid neighbor isDiagonal
             in if gScore st1 neighbor = None \<or> tentativeG < the (gScore st1 neighbor) then
                  (let f = tentativeG + computeHeuristic neighbor goalCell in
                   st1\<lparr>cameFrom := (cameFrom st1)(neighbor \<mapsto> n_cell current),
                       gScore := (gScore st1)(neighbor \<mapsto> tentativeG),
                       fScore := (fScore st1)(neighbor \<mapsto> f),
                       openSet := openSet st1 @ [\<lparr>n_cell = neighbor, n_g = tentativeG, n_f = f\<rparr>]\<rparr>)
                else st1)"

definition astarCond :: "AStarState \<Rightarrow> bool" where
  "astarCond st = (\<not> a_returned st \<and> openSet st \<noteq> [])"

definition astarBody :: "(Node list \<Rightarrow> nat) \<Rightarrow> Grid \<Rightarrow> ivec2 \<Rightarrow> AStarState \<Rightarrow> AStarState" where
  "astarBody tie grid goalCell st =
     (let i = topIndex tie nodeBefore (openSet st);
          current = openSet st ! i;
          st1 = st\<lparr>openSet := removeAt i (openSet st)\<rparr>
      in if n_cell current \<in> closedSet st1 then st1
         else
           let st2 = st1\<lparr>closedSet := insert (n_cell current) (closedSet st1),
                         a_explored := a_explored st1 @ [n_cell current]\<rparr>
           in if n_cell current = goalCell then st2\<lparr>a_returned := True\<rparr>
              else foldl (relax grid goalCell current) st2 offsets)"

text \<open>\<open>AStarPlanner::solve\<close> on the out-parameter \<open>path\<close>: \<open>None\<close> when a loop does not
  return, \<open>Some (Inl e)\<close> for the exception \<open>e\<close>.\<close>

definition solve :: "(Node list \<Rightarrow> nat) \<Rightarrow> PathPlannerBase \<Rightarrow> PlannedPath \<Rightarrow> (planner_error + PlannedPath) option" where
  "solve tie p path =
     (let grid = p_map p; startPos = the (p_start p); goalPos = the (p_goal p) in
      if \<not> isCell startPos \<or> \<not> isCell goalPos then Some (Inl NotCellBased)
      else
        let startCell = cell startPos; goalCell = cell goalPos in
        if \<not> isCellWithinBounds grid startCell \<or> \<not> isCellWithinBounds grid goalCell
        then Some (Inr (path\<lparr>exploredCells := [], waypoints := []\<rparr>))
        else if \<not> isTraversableCell grid startCell \<or> \<not> isTraversableCell grid goalCell
        then Some (Inr (path\<lparr>exploredCells := [], waypoints := []\<rparr>))
        else if startCell = goalCell
        then Some (Inr (path\<lparr>exploredCells := [startCell], waypoints := [center startCell]\<rparr>))
        else
          let st0 = \<lparr>openSet = [\<lparr>n_cell = startCell, n_g = 0, n_f = computeHeuristic startCell goalCell\<rparr>],
                     cameFrom = Map.empty,
                     gScore = [startCell \<mapsto> 0],
                     fScore = [startCell \<mapsto> computeHeuristic startCell goalCell],
                     closedSet = {}, a_explored = [], a_returned = False\<rparr>
          in case while_option astarCond (astarBody tie grid goalCell) st0 of
               None \<Rightarrow> None
             | Some st \<Rightarrow>
                 if a_returned st then
                   (case reconstructPath (cameFrom st) goalCell of
                      None \<Rightarrow> None
                    | Some cells \<Rightarrow>
                        Some (Inr (path\<lparr>exploredCells := a_explored st, waypoints := map center cells\<rparr>)))
                 else Some (Inr (path\<lparr>exploredCells := a_explored st, waypoints := []\<rparr>)))"

text \<open>\<open>PathPlannerBase::computePath\<close> with \<open>AStarPlanner::solve\<close>.\<close>

definition astarComputePath :: "(Node list \<Rightarrow> nat) \<Rightarrow> PathPlannerBase \<Rightarrow> (planner_error + PlannedPath) option" where
  "astarComputePath tie p =
     (case ensureConfigured p of
        Some e \<Rightarrow> Some (Inl e)
      | None \<Rightarrow>
          (case solve tie p emptyPath of
             None \<Rightarrow> None
           | Some (Inl e) \<Rightarrow> Some (Inl e)
           | Some (Inr path) \<Rightarrow> Some (Inr (path\<lparr>success := (waypoints path \<noteq> [])\<rparr>))))"


section \<open>Sequences of planner operations\<close>

text \<open>The public operations of \<open>DStarLitePlanner\<close>. An operation that throws leaves the
  planner as it was; \<open>computePath\<close> has no result when it does not return.\<close>

datatype planner_op = SetMap Grid | SetStart PlannerPosition | SetGoal PlannerPosition | ComputePath

definition applyOp :: "(QueueEntry list \<Rightarrow> nat) \<Rightarrow> DStarLitePlanner \<Rightarrow> planner_op \<Rightarrow> DStarLitePlanner option" where
  "applyOp tie s opn =
     (case opn of
        SetMap grid \<Rightarrow> Some (setMap s grid)
      | SetStart position \<Rightarrow> (case setStart s position of Inl e \<Rightarrow> Some s | Inr s' \<Rightarrow> Some s')
      | SetGoal position \<Rightarrow> (case setGoal s position of Inl e \<Rightarrow> Some s | Inr s' \<Rightarrow> Some s')
      | ComputePath \<Rightarrow> map_option fst (computePath tie s))"

fun runOps :: "(QueueEntry list \<Rightarrow> nat) \<Rightarrow> DStarLitePlanner \<Rightarrow> planner_op list \<Rightarrow> DStarLitePlanner option" where
  "runOps tie s [] = Some s"
| "runOps tie s (opn # opns) =
     (case applyOp tie s opn of None \<Rightarrow> None | Some s' \<Rightarrow> runOps tie s' opns)"

text \<open>The planners that a program can hold: a constructed planner after any operations
  that returned.\<close>

inductive reachable :: "(QueueEntry list \<Rightarrow> nat) \<Rightarrow> DStarLitePlanner \<Rightarrow> bool" for tie where
  constructed: "reachable tie newPlanner"
| applied: "reachable tie s \<Longrightarrow> applyOp tie s opn = Some s' \<Longrightarrow> reachable tie s'"

text \<open>The members that the search (\<open>updateVertex\<close>, \<open>computeShortestPath\<close>) never writes.\<close>

definition config :: "DStarLitePlanner \<Rightarrow> Grid \<times> ivec2 \<times> ivec2 \<times> ivec2 \<times> bool \<times> bool \<times> bool \<times> bool \<times> real \<times> ivec2 list" where
  "config s = (m_map s, m_startCell s, m_goalCell s, m_lastStart s, m_hasMap s, m_hasStart s,
               m_hasGoal s, m_initialized s, m_keyModifier s, m_pendingUpdates s)"

text \<open>
  What every reachable planner satisfies: no \<open>g\<close> or \<open>rhs\<close> value is negative, every cell
  with a live entry in \<open>m_openTable\<close> is inconsistent, and once the planner is
  initialised and a search has returned, the goal has \<open>g = rhs = 0\<close>.
\<close>

definition nonneg :: "DStarLitePlanner \<Rightarrow> bool" where
  "nonneg s \<longleftrightarrow> (\<forall>c. Fin 0 \<le> g s c \<and> Fin 0 \<le> rhs s c)"

definition tableOk :: "DStarLitePlanner \<Rightarrow> bool" where
  "tableOk s \<longleftrightarrow> (\<forall>c. m_openTable s c \<noteq> None \<longrightarrow> g s c \<noteq> rhs s c)"

definition goalDone :: "DStarLitePlanner \<Rightarrow> bool" where
  "goalDone s \<longleftrightarrow> g s (m_goalCell s) = Fin 0 \<and> rhs s (m_goalCell s) = Fin 0"

definition plannerInv :: "DStarLitePlanner \<Rightarrow> bool" where
  "plannerInv s \<longleftrightarrow> nonneg s \<and> tableOk s \<and> (m_initialized s \<longrightarrow> goalDone s)"

text \<open>The rule that a step from cell \<open>a\<close> to cell \<open>b\<close> obeys: \<open>b\<close> is one of the eight
  neighbours of \<open>a\<close>, and when the step is diagonal both cells beside it are in bounds
  and traversable.\<close>

definition cornerRule :: "Grid \<Rightarrow> ivec2 \<Rightarrow> ivec2 \<Rightarrow> bool" where
  "cornerRule grid a b \<longleftrightarrow>
     (\<exists>off\<in>set offsets. b = addCell a off) \<and>
     (fst a \<noteq> fst b \<and> snd a \<noteq> snd b \<longrightarrow>
        isCellWithinBounds grid (fst b, snd a) \<and> isTraversableCell grid (fst b, snd a) \<and>
        isCellWithinBounds grid (fst a, snd b) \<and> isTraversableCell grid (fst a, snd b))"

fun stepsOk :: "Grid \<Rightarrow> ivec2 list \<Rightarrow> bool" where
  "stepsOk grid (a # b # cs) = (cornerRule grid a b \<and> stepsOk grid (b # cs))"
| "stepsOk grid cs = True"
section \<open>Dynamic obstacles (src/viewer/Grid.cpp, src/viewer/InputHandler.cpp)\<close>

text \<open>The members of the viewer's \<open>Grid\<close> that the obstacle operations read and write;
  \<open>m_quads\<close> stands for the coloured quads of its \<open>QuadRenderer\<close>.\<close>

type_synonym vec3 = "real \<times> real \<times> real"

datatype ObstacleVisibility = Hidden | Visible

record ViewerGrid =
  m_width :: nat
  m_height :: nat
  v_startCell :: ivec2
  v_goalCell :: ivec2
  m_visibleDynamicObstacles :: "ivec2 set"
  m_hiddenDynamicObstacles :: "ivec2 set"
  m_quads :: "ivec2 \<Rightarrow> vec3 option"

definition s_visibleObstacleColor :: vec3 where
  "s_visibleObstacleColor = (0, 0, 0)"

definition s_hiddenObstacleColor :: vec3 where
  "s_hiddenObstacleColor = (1 / 10, 4 / 10, 9 / 10)"

definition containsCell :: "ViewerGrid \<Rightarrow> ivec2 \<Rightarrow> bool" where
  "containsCell gr c =
     (fst c \<ge> 0 \<and> snd c \<ge> 0 \<and> fst c < int (m_width gr) \<and> snd c < int (m_height gr))"

definition setCellColor :: "ViewerGrid \<Rightarrow> ivec2 \<Rightarrow> vec3 \<Rightarrow> ViewerGrid" where
  "setCellColor gr c color =
     (if \<not> containsCell gr c then gr else gr\<lparr>m_quads := (m_quads gr)(c \<mapsto> color)\<rparr>)"

definition setCellColorForObstacle :: "ViewerGrid \<Rightarrow> ivec2 \<Rightarrow> ViewerGrid" where
  "setCellColorForObstacle gr c =
     (if c \<in> m_visibleDynamicObstacles gr then setCellColor gr c s_visibleObstacleColor
      else if c \<in> m_hiddenDynamicObstacles gr then setCellColor gr c s_hiddenObstacleColor
      else gr)"

text \<open>\<open>Grid::addDynamicObstacle\<close>: the value returned and the grid after the call.\<close>

definition addDynamicObstacle :: "ViewerGrid \<Rightarrow> ivec2 \<Rightarrow> ObstacleVisibility \<Rightarrow> bool \<times> ViewerGrid" where
  "addDynamicObstacle gr c visibility =
     (if \<not> containsCell gr c then (False, gr)
      else if c = v_startCell gr \<or> c = v_goalCell gr then (False, gr)
      else if c \<in> m_visibleDynamicObstacles gr \<or> c \<in> m_hiddenDynamicObstacles gr then (False, gr)
      else
        let gr1 = (if visibility = Visible
                   then gr\<lparr>m_visibleDynamicObstacles := insert c (m_visibleDynamicObstacles gr)\<rparr>
                   else gr\<lparr>m_hiddenDynamicObstacles := insert c (m_hiddenDynamicObstacles gr)\<rparr>)
        in (True, setCellColorForObstacle gr1 c))"

text \<open>The static members of \<open>InputHandler\<close>; a null pointer is \<open>None\<close>, and \<open>'p\<close> is
  the planner that \<open>s_planner\<close> points to, with the grid it plans on.\<close>

record 'p InputHandler =
  s_grid :: "ViewerGrid option"
  s_mapData :: "Grid option"
  s_planner :: "'p option"
  s_runtimeCells :: "real list"
  s_costmapLayer :: CostmapLayer
  s_lastPaintedCell :: "ivec2 option"

text \<open>\<open>InputHandler::addObstacleFromInput\<close>; the line it prints is left out.\<close>

definition addObstacleFromInput :: "'p InputHandler \<Rightarrow> ivec2 \<Rightarrow> bool \<times> 'p InputHandler" where
  "addObstacleFromInput ih c =
     (if s_grid ih = None \<or> s_mapData ih = None then (False, ih)
      else
        let ih1 = ih\<lparr>s_lastPaintedCell := Some c\<rparr>;
            r = addDynamicObstacle (the (s_grid ih1)) c Hidden;
            ih2 = ih1\<lparr>s_grid := Some (snd r)\<rparr>
        in if \<not> fst r then (False, ih2) else (True, ih2))"
section \<open>Agent (src/agent/SimpleAStarAgent.cpp)\<close>












section \<open>Auxiliary notions for the analysis of D* Lite\<close>

text \<open>The value \<open>updateVertex\<close> writes into \<open>rhs\<close>, the key no consistent entry is below
  when the start is the goal, the two counts of the termination measure of
  \<open>computeShortestPath\<close>, and the shapes of a planner before a search.\<close>

definition newRhs :: "DStarLitePlanner \<Rightarrow> ivec2 \<Rightarrow> efloat" where
  "newRhs s c = (if c = m_goalCell s then Fin 0 else foldl (minRhsStep s c) PInf (getNeighbors s c))"

definition baseKey :: "DStarLitePlanner \<Rightarrow> Key" where
  "baseKey s = \<lparr>k1 = Fin (m_keyModifier s), k2 = Fin 0\<rparr>"

definition lessCount :: "Key \<Rightarrow> DStarLitePlanner \<Rightarrow> nat" where
  "lessCount K s = length (filter (\<lambda>e. keyLess (q_key e) K) (m_openList s))"

definition geCount :: "Key \<Rightarrow> DStarLitePlanner \<Rightarrow> nat" where
  "geCount K s = length (filter (\<lambda>e. \<not> keyLess (q_key e) K) (m_openList s))"

definition coreInv :: "DStarLitePlanner \<Rightarrow> bool" where
  "coreInv s \<longleftrightarrow> nonneg s \<and> tableOk s \<and> goalDone s"

text \<open>The planner after the expansion of the cell \<open>u\<close> of a valid top entry, from the
  planner \<open>s\<close> where the entry is popped and erased from the table.\<close>

definition expand :: "DStarLitePlanner \<Rightarrow> ivec2 \<Rightarrow> DStarLitePlanner" where
  "expand s u =
     (if g s u > rhs s u then
        (let s4 = setG s u (rhs s u) in foldl updateVertex s4 (getNeighbors s4 u))
      else
        (let s4 = setG s u PInf; s5 = updateVertex s4 u
         in foldl updateVertex s5 (getNeighbors s5 u)))"

definition cspMeasure :: "DStarLitePlanner \<times> ivec2 set \<Rightarrow> nat" where
  "cspMeasure st = 10 * lessCount (baseKey (fst st)) (fst st) + geCount (baseKey (fst st)) (fst st)"

definition initShape :: "DStarLitePlanner \<Rightarrow> bool" where
  "initShape s \<longleftrightarrow>
     (\<forall>c. g s c = PInf) \<and> rhs s (m_goalCell s) = Fin 0 \<and>
     (\<forall>c. c \<noteq> m_goalCell s \<longrightarrow> rhs s c = PInf) \<and>
     m_openTable s = [m_goalCell s \<mapsto> calculateKey s (m_goalCell s)] \<and>
     m_openList s \<noteq> [] \<and>
     (\<forall>e\<in>set (m_openList s). q_cell e = m_goalCell s \<and> q_key e = calculateKey s (m_goalCell s))"

section \<open>Auxiliary notions for the analysis of A*\<close>

text \<open>The invariant of the loop of \<open>solve\<close> for the start cell \<open>startCell\<close>: every open node has
  a score, the start has the score 0 and no predecessor, a predecessor has a smaller score
  than its successor and the step between them is a legal move, and every cell with a score
  is in bounds, has a score that is not negative and, but for the start, has a predecessor.
  Then the state after a successful relaxation, and the measure of the loop.\<close>

definition astarInv :: "Grid \<Rightarrow> ivec2 \<Rightarrow> AStarState \<Rightarrow> bool" where
  "astarInv grid startCell st \<longleftrightarrow>
     (\<forall>n\<in>set (openSet st). gScore st (n_cell n) \<noteq> None) \<and>
     cameFrom st startCell = None \<and> gScore st startCell = Some 0 \<and>
     (\<forall>c p. cameFrom st c = Some p \<longrightarrow>
        (\<exists>x y. gScore st c = Some x \<and> gScore st p = Some y \<and> y < x) \<and> cornerRule grid p c) \<and>
     (\<forall>c x. gScore st c = Some x \<longrightarrow>
        0 \<le> x \<and> isCellWithinBounds grid c \<and> (c \<noteq> startCell \<longrightarrow> cameFrom st c \<noteq> None))"

definition relaxed :: "Grid \<Rightarrow> ivec2 \<Rightarrow> ivec2 \<Rightarrow> real \<Rightarrow> AStarState \<Rightarrow> ivec2 \<Rightarrow> AStarState" where
  "relaxed grid goalCell cur gc st off =
     (let nb = addCell cur off;
          tg = gc + traversalCost grid nb (fst off \<noteq> 0 \<and> snd off \<noteq> 0);
          f = tg + computeHeuristic nb goalCell
      in st\<lparr>cameFrom := (cameFrom st)(nb \<mapsto> cur),
            gScore := (gScore st)(nb \<mapsto> tg),
            fScore := (fScore st)(nb \<mapsto> f),
            openSet := openSet st @ [\<lparr>n_cell = nb, n_g = tg, n_f = f\<rparr>]\<rparr>)"

definition astarMeasure :: "Grid \<Rightarrow> AStarState \<Rightarrow> nat" where
  "astarMeasure grid st =
     9 * card {c. isCellWithinBounds grid c \<and> c \<notin> closedSet st} + length (openSet st)"


section \<open>Properties of the costmap layer\<close>


lemma idx_bound:
  assumes "0 \<le> nx" "nx < int w" "0 \<le> ny" "ny < int h"
  shows "nat ny * w + nat nx < w * h"
proof -
  have "nat nx < w" "nat ny < h" using assms by linarith+
  then have "nat ny * w + nat nx < (nat ny + 1) * w" by simp
  also have "\<dots> \<le> h * w" using \<open>nat ny < h\<close> by (intro mult_le_mono1) simp
  finally show ?thesis by (simp add: mult.commute)
qed








text \<open>
  C7. \<open>update\<close> throws exactly when the layer is not initialised or the size of
  \<open>baseCells\<close> is not \<open>width * height\<close>, and then the layer (its cells, its inflation
  mask and its inflation centres) is the one before the call.
\<close>

theorem update_error_iff:
  "(fst (update L baseCells r) \<noteq> None \<longleftrightarrow>
      \<not> c_initialized L \<or> length baseCells \<noteq> width (c_metadata L) * height (c_metadata L))
   \<and> (fst (update L baseCells r) \<noteq> None \<longrightarrow> snd (update L baseCells r) = L)"
  by (simp add: update_def cellCount_def Let_def)

theorem update_error_iff_witness:
  "fst (update (initialize newLayer \<lparr>width = 2, height = 1, resolution = 1\<rparr>) [1] 1) \<noteq> None
   \<and> snd (update (initialize newLayer \<lparr>width = 2, height = 1, resolution = 1\<rparr>) [1] 1)
       = initialize newLayer \<lparr>width = 2, height = 1, resolution = 1\<rparr>
   \<and> fst (update newLayer [] 1) \<noteq> None"
  using update_error_iff [of "initialize newLayer \<lparr>width = 2, height = 1, resolution = 1\<rparr>" "[1]" 1]
    update_error_iff [of newLayer "[]" 1]
  by (simp add: initialize_def newLayer_def cellCount_def)



section \<open>Properties of the D* Lite planner: \<open>setMap\<close>\<close>

lemma foldl_diffCell_set:
  "set (foldl (diffCell oldCells newCells w) pending [0 ..< n])
     = set pending \<union> {(int (i mod w), int (i div w)) | i. i < n \<and> blocked (oldCells ! i) \<noteq> blocked (newCells ! i)}"
proof (induction n)
  case 0
  then show ?case by simp
next
  case (Suc n)
  have "{(int (i mod w), int (i div w)) | i. i < Suc n \<and> blocked (oldCells ! i) \<noteq> blocked (newCells ! i)}
      = {(int (i mod w), int (i div w)) | i. i < n \<and> blocked (oldCells ! i) \<noteq> blocked (newCells ! i)}
        \<union> (if blocked (oldCells ! n) \<noteq> blocked (newCells ! n) then {(int (n mod w), int (n div w))} else {})"
    by (auto simp: less_Suc_eq)
  then show ?case using Suc.IH by (auto simp: diffCell_def Let_def)
qed

lemma changed_cells_eq:
  assumes w: "0 < w"
  shows "{(int (i mod w), int (i div w)) | i. i < w * h \<and> P i}
       = {c. 0 \<le> fst c \<and> fst c < int w \<and> 0 \<le> snd c \<and> snd c < int h \<and> P (nat (snd c) * w + nat (fst c))}"
    (is "?A = ?B")
proof (rule set_eqI, rule iffI)
  fix c assume "c \<in> ?A"
  then obtain i where i: "i < w * h" "P i" and c: "c = (int (i mod w), int (i div w))" by blast
  have "i div w < h" using i(1) w by (simp add: less_mult_imp_div_less mult.commute)
  moreover have "i mod w < w" using w by simp
  moreover have "nat (snd c) * w + nat (fst c) = i" using c by simp
  ultimately show "c \<in> ?B" using i(2) c by simp
next
  fix c assume cB: "c \<in> ?B"
  define i where "i = nat (snd c) * w + nat (fst c)"
  have b: "0 \<le> fst c" "fst c < int w" "0 \<le> snd c" "snd c < int h" and P: "P i"
    using cB by (simp_all add: i_def)
  have "i < w * h" unfolding i_def using idx_bound [OF b] .
  moreover have "nat (fst c) < w" using b by linarith
  then have "i mod w = nat (fst c)" "i div w = nat (snd c)" by (simp_all add: i_def)
  then have "c = (int (i mod w), int (i div w))" using b by (simp add: prod_eq_iff)
  ultimately show "c \<in> ?A" using P by blast
qed

text \<open>
  C6. With a prior map of the same dimensions, \<open>setMap\<close> adds to \<open>m_pendingUpdates\<close>
  exactly the cells whose blocked state (value at least \<open>1\<close>, or \<open>-1\<close>) differs between
  the old and the new grid, and changes nothing else but the map; with a prior map of
  other dimensions it resets the planner and clears the pending updates; with no prior
  map it adopts the grid with no pending update.
\<close>

theorem setMap_pending:
  "(m_hasMap s \<and> gridOk (m_map s) \<and> gridOk grid
      \<and> width (m_metadata (m_map s)) = width (m_metadata grid)
      \<and> height (m_metadata (m_map s)) = height (m_metadata grid)
    \<longrightarrow> set (m_pendingUpdates (setMap s grid))
          = set (m_pendingUpdates s)
            \<union> {c. isCellWithinBounds grid c \<and>
                   blocked (gridAt (m_map s) (nat (fst c)) (nat (snd c)))
                     \<noteq> blocked (gridAt grid (nat (fst c)) (nat (snd c)))}
        \<and> setMap s grid = s\<lparr>m_pendingUpdates := m_pendingUpdates (setMap s grid), m_map := grid\<rparr>)
   \<and> (m_hasMap s
      \<and> (width (m_metadata (m_map s)) \<noteq> width (m_metadata grid)
          \<or> height (m_metadata (m_map s)) \<noteq> height (m_metadata grid))
    \<longrightarrow> setMap s grid = (resetPlannerState s)\<lparr>m_map := grid, m_pendingUpdates := []\<rparr>)
   \<and> (\<not> m_hasMap s
    \<longrightarrow> setMap s grid = (resetPlannerState s)\<lparr>m_map := grid, m_pendingUpdates := [], m_hasMap := True\<rparr>)"
proof (intro conjI impI)
  assume a: "m_hasMap s \<and> gridOk (m_map s) \<and> gridOk grid
      \<and> width (m_metadata (m_map s)) = width (m_metadata grid)
      \<and> height (m_metadata (m_map s)) = height (m_metadata grid)"
  define w where "w = width (m_metadata grid)"
  define h where "h = height (m_metadata grid)"
  have w: "0 < w" and lens: "length (m_cells (m_map s)) = w * h" "length (m_cells grid) = w * h"
    and wd: "width (m_metadata (m_map s)) = w" and hd: "height (m_metadata (m_map s)) = h"
    using a by (simp_all add: gridOk_def cellCount_def w_def h_def)
  have "m_pendingUpdates (setMap s grid)
      = foldl (diffCell (m_cells (m_map s)) (m_cells grid) w) (m_pendingUpdates s) [0 ..< w * h]"
    using a lens by (simp add: setMap_def Let_def w_def)
  then have "set (m_pendingUpdates (setMap s grid)) = set (m_pendingUpdates s)
      \<union> {(int (i mod w), int (i div w)) | i. i < w * h \<and>
           blocked (m_cells (m_map s) ! i) \<noteq> blocked (m_cells grid ! i)}"
    by (simp add: foldl_diffCell_set)
  also have "{(int (i mod w), int (i div w)) | i. i < w * h \<and>
           blocked (m_cells (m_map s) ! i) \<noteq> blocked (m_cells grid ! i)}
      = {c. isCellWithinBounds grid c \<and>
                   blocked (gridAt (m_map s) (nat (fst c)) (nat (snd c)))
                     \<noteq> blocked (gridAt grid (nat (fst c)) (nat (snd c)))}"
    unfolding changed_cells_eq [OF w]
    by (auto simp: isCellWithinBounds_def gridAt_def wd w_def [symmetric] h_def [symmetric])
  finally show "set (m_pendingUpdates (setMap s grid))
          = set (m_pendingUpdates s)
            \<union> {c. isCellWithinBounds grid c \<and>
                   blocked (gridAt (m_map s) (nat (fst c)) (nat (snd c)))
                     \<noteq> blocked (gridAt grid (nat (fst c)) (nat (snd c)))}" .
  show "setMap s grid = s\<lparr>m_pendingUpdates := m_pendingUpdates (setMap s grid), m_map := grid\<rparr>"
    using a by (simp add: setMap_def Let_def)
next
  assume "m_hasMap s
      \<and> (width (m_metadata (m_map s)) \<noteq> width (m_metadata grid)
          \<or> height (m_metadata (m_map s)) \<noteq> height (m_metadata grid))"
  then show "setMap s grid = (resetPlannerState s)\<lparr>m_map := grid, m_pendingUpdates := []\<rparr>"
    by (auto simp: setMap_def Let_def resetPlannerState_def)
next
  assume "\<not> m_hasMap s"
  then show "setMap s grid = (resetPlannerState s)\<lparr>m_map := grid, m_pendingUpdates := [], m_hasMap := True\<rparr>"
    by (simp add: setMap_def resetPlannerState_def)
qed

theorem setMap_pending_witness:
  "(0, 0) \<in> set (m_pendingUpdates (setMap (setMap newPlanner
        \<lparr>m_metadata = \<lparr>width = 2, height = 1, resolution = 1\<rparr>, m_cells = [0, 0]\<rparr>)
        \<lparr>m_metadata = \<lparr>width = 2, height = 1, resolution = 1\<rparr>, m_cells = [1, 0]\<rparr>))
   \<and> (1, 0) \<notin> set (m_pendingUpdates (setMap (setMap newPlanner
        \<lparr>m_metadata = \<lparr>width = 2, height = 1, resolution = 1\<rparr>, m_cells = [0, 0]\<rparr>)
        \<lparr>m_metadata = \<lparr>width = 2, height = 1, resolution = 1\<rparr>, m_cells = [1, 0]\<rparr>))
   \<and> m_pendingUpdates (setMap newPlanner
        \<lparr>m_metadata = \<lparr>width = 2, height = 1, resolution = 1\<rparr>, m_cells = [0, 0]\<rparr>) = []"
proof -
  define g1 :: Grid where "g1 = \<lparr>m_metadata = \<lparr>width = 2, height = 1, resolution = 1\<rparr>, m_cells = [0, 0]\<rparr>"
  define g2 :: Grid where "g2 = \<lparr>m_metadata = \<lparr>width = 2, height = 1, resolution = 1\<rparr>, m_cells = [1, 0]\<rparr>"
  define s where "s = setMap newPlanner g1"
  have s: "m_hasMap s" "m_map s = g1" "m_pendingUpdates s = []"
    by (simp_all add: s_def setMap_def newPlanner_def resetPlannerState_def)
  have ok: "gridOk g1" "gridOk g2" by (simp_all add: gridOk_def g1_def g2_def cellCount_def)
  have dims: "width (m_metadata g1) = width (m_metadata g2)" "height (m_metadata g1) = height (m_metadata g2)"
    by (simp_all add: g1_def g2_def)
  have "set (m_pendingUpdates (setMap s g2))
      = {c. isCellWithinBounds g2 c \<and>
            blocked (gridAt g1 (nat (fst c)) (nat (snd c))) \<noteq> blocked (gridAt g2 (nat (fst c)) (nat (snd c)))}"
    using setMap_pending [of s g2] s ok dims by simp
  then have "(0, 0) \<in> set (m_pendingUpdates (setMap s g2))" "(1, 0) \<notin> set (m_pendingUpdates (setMap s g2))"
    by (simp_all add: isCellWithinBounds_def gridAt_def blocked_def s_missingData_def g1_def g2_def)
  then show ?thesis using s(3) unfolding s_def g1_def g2_def by simp
qed
section \<open>Properties of the D* Lite planner: the key modifier\<close>

lemma config_setG [simp]: "config (setG s c v) = config s"
  by (simp add: setG_def config_def)

lemma config_setRhs [simp]: "config (setRhs s c v) = config s"
  by (simp add: setRhs_def config_def)

lemma config_pushOpen [simp]: "config (pushOpen s c k) = config s"
  by (simp add: pushOpen_def config_def)

lemma config_upd [simp]:
  "config (s\<lparr>m_openTable := ot\<rparr>) = config s"
  "config (s\<lparr>m_expandedNodes := en\<rparr>) = config s"
  "config (s\<lparr>m_openList := ol\<rparr>) = config s"
  "config (s\<lparr>m_nodeInfo := ni\<rparr>) = config s"
  "config (s\<lparr>m_queueSequence := qs\<rparr>) = config s"
  by (simp_all add: config_def)

lemma config_updateVertex [simp]: "config (updateVertex s c) = config s"
  by (simp add: updateVertex_def Let_def)

lemma config_foldl_updateVertex [simp]: "config (foldl updateVertex s cs) = config s"
  by (induction cs arbitrary: s) simp_all

lemma config_queuePop [simp]: "config (queuePop tie s) = config s"
  by (simp add: queuePop_def config_def)

lemma config_cspBody: "config (fst (cspBody tie st)) = config (fst st)"
  by (simp add: cspBody_def Let_def)

lemma config_computeShortestPath:
  assumes "computeShortestPath tie s = Some s'"
  shows "config s' = config s"
proof -
  obtain st where w: "while_option (cspCond tie) (cspBody tie) (s\<lparr>m_expandedNodes := []\<rparr>, {}) = Some st"
    and s': "s' = fst st"
    using assms by (auto simp: computeShortestPath_def)
  have "config (fst st) = config s"
    by (rule while_option_rule [where P = "\<lambda>st. config (fst st) = config s", OF _ w])
       (simp_all add: config_cspBody)
  then show ?thesis using s' by simp
qed

lemma config_applyPendingUpdates:
  "config (applyPendingUpdates s) = (config s) \<or> config (applyPendingUpdates s) = config (s\<lparr>m_pendingUpdates := []\<rparr>)"
  by (simp add: applyPendingUpdates_def Let_def)

lemma keyModifier_config: "config s' = config s \<Longrightarrow> m_keyModifier s' = m_keyModifier s"
  by (simp add: config_def)

lemma computeHeuristic_nonneg: "0 \<le> computeHeuristic a b"
  by (simp add: computeHeuristic_def Let_def sqrt2f_def)

lemma config_initializePlanner:
  "config (initializePlanner s) =
     (m_map s, m_startCell s, m_goalCell s, m_startCell s, m_hasMap s, m_hasStart s,
      m_hasGoal s, True, 0, m_pendingUpdates s)"
  by (simp add: initializePlanner_def Let_def resetPlannerState_def config_def pushOpen_def setRhs_def)

lemma keyModifier_applyPendingUpdates [simp]:
  "m_keyModifier (applyPendingUpdates s) = m_keyModifier s"
proof -
  have "m_keyModifier (foldl updateVertex (s\<lparr>m_pendingUpdates := []\<rparr>) cs) = m_keyModifier s" for cs
    using keyModifier_config [OF config_foldl_updateVertex [of "s\<lparr>m_pendingUpdates := []\<rparr>" cs]] by simp
  then show ?thesis by (simp add: applyPendingUpdates_def Let_def)
qed





section \<open>Properties of the dynamic obstacles\<close>

text \<open>
  C9. Adding a user obstacle, on a handler with a grid and map data, succeeds exactly
  when the cell is in bounds, is neither the start nor the goal cell and is not yet a
  visible or hidden obstacle; then the cell is inserted into the hidden set, and else
  the sets are unchanged. Either way the visible set, the runtime cost cells, the costmap
  layer and the planner (with its grid) are unchanged, and visible and hidden sets that
  were disjoint remain disjoint.
\<close>

theorem addObstacleFromInput_hidden:
  assumes "s_grid ih = Some gr" and "s_mapData ih \<noteq> None"
    and "addObstacleFromInput ih c = (ok, ih')"
  shows "\<exists>gr'. s_grid ih' = Some gr'
     \<and> (ok \<longleftrightarrow> containsCell gr c \<and> c \<noteq> v_startCell gr \<and> c \<noteq> v_goalCell gr
                \<and> c \<notin> m_visibleDynamicObstacles gr \<and> c \<notin> m_hiddenDynamicObstacles gr)
     \<and> m_hiddenDynamicObstacles gr'
          = (if ok then insert c (m_hiddenDynamicObstacles gr) else m_hiddenDynamicObstacles gr)
     \<and> m_visibleDynamicObstacles gr' = m_visibleDynamicObstacles gr
     \<and> s_runtimeCells ih' = s_runtimeCells ih
     \<and> s_costmapLayer ih' = s_costmapLayer ih
     \<and> s_planner ih' = s_planner ih
     \<and> (m_visibleDynamicObstacles gr \<inter> m_hiddenDynamicObstacles gr = {}
          \<longrightarrow> m_visibleDynamicObstacles gr' \<inter> m_hiddenDynamicObstacles gr' = {})"
  using assms
  by (auto simp: addObstacleFromInput_def addDynamicObstacle_def setCellColorForObstacle_def
      setCellColor_def Let_def split: if_splits)

theorem addObstacleFromInput_hidden_witness:
  "fst (addObstacleFromInput
      \<lparr>s_grid = Some \<lparr>m_width = 3, m_height = 3, v_startCell = (0, 0), v_goalCell = (2, 2),
                     m_visibleDynamicObstacles = {(1, 0)}, m_hiddenDynamicObstacles = {},
                     m_quads = Map.empty\<rparr>,
        s_mapData = Some \<lparr>m_metadata = \<lparr>width = 3, height = 3, resolution = 1\<rparr>,
                          m_cells = [0, 0, 0, 0, 0, 0, 0, 0, 0]\<rparr>,
        s_planner = Some newPlanner, s_runtimeCells = [0, 1, 0, 0, 0, 0, 0, 0, 0],
        s_costmapLayer = newLayer, s_lastPaintedCell = None\<rparr> (1, 1))
   \<and> s_runtimeCells (snd (addObstacleFromInput
      \<lparr>s_grid = Some \<lparr>m_width = 3, m_height = 3, v_startCell = (0, 0), v_goalCell = (2, 2),
                     m_visibleDynamicObstacles = {(1, 0)}, m_hiddenDynamicObstacles = {},
                     m_quads = Map.empty\<rparr>,
        s_mapData = Some \<lparr>m_metadata = \<lparr>width = 3, height = 3, resolution = 1\<rparr>,
                          m_cells = [0, 0, 0, 0, 0, 0, 0, 0, 0]\<rparr>,
        s_planner = Some newPlanner, s_runtimeCells = [0, 1, 0, 0, 0, 0, 0, 0, 0],
        s_costmapLayer = newLayer, s_lastPaintedCell = None\<rparr> (1, 1)))
      = [0, 1, 0, 0, 0, 0, 0, 0, 0]"
proof -
  define gr :: ViewerGrid where
    "gr = \<lparr>m_width = 3, m_height = 3, v_startCell = (0, 0), v_goalCell = (2, 2),
           m_visibleDynamicObstacles = {(1, 0)}, m_hiddenDynamicObstacles = {}, m_quads = Map.empty\<rparr>"
  define ih :: "DStarLitePlanner InputHandler" where
    "ih = \<lparr>s_grid = Some gr,
        s_mapData = Some \<lparr>m_metadata = \<lparr>width = 3, height = 3, resolution = 1\<rparr>,
                          m_cells = [0, 0, 0, 0, 0, 0, 0, 0, 0]\<rparr>,
        s_planner = Some newPlanner, s_runtimeCells = [0, 1, 0, 0, 0, 0, 0, 0, 0],
        s_costmapLayer = newLayer, s_lastPaintedCell = None\<rparr>"
  have pre: "s_grid ih = Some gr" "s_mapData ih \<noteq> None" by (simp_all add: ih_def)
  have res: "addObstacleFromInput ih (1, 1)
      = (fst (addObstacleFromInput ih (1, 1)), snd (addObstacleFromInput ih (1, 1)))" by simp
  have cond: "containsCell gr (1, 1) \<and> (1, 1) \<noteq> v_startCell gr \<and> (1, 1) \<noteq> v_goalCell gr
      \<and> (1, 1) \<notin> m_visibleDynamicObstacles gr \<and> (1, 1) \<notin> m_hiddenDynamicObstacles gr"
    by (simp add: containsCell_def gr_def)
  have rc: "s_runtimeCells ih = [0, 1, 0, 0, 0, 0, 0, 0, 0]" by (simp add: ih_def)
  have "fst (addObstacleFromInput ih (1, 1)) \<and>
        s_runtimeCells (snd (addObstacleFromInput ih (1, 1))) = [0, 1, 0, 0, 0, 0, 0, 0, 0]"
    using addObstacleFromInput_hidden [OF pre res] cond rc by auto
  then show ?thesis by (simp add: ih_def gr_def)
qed
section \<open>Properties of the agent\<close>






section \<open>Invariants of the D* Lite planner\<close>

subsection \<open>Extended floats\<close>

lemma efloat_add_nonneg: "Fin 0 \<le> a \<Longrightarrow> Fin 0 \<le> b \<Longrightarrow> Fin 0 \<le> a + (b :: efloat)"
  by (cases a; cases b) auto

lemma efloat_le_add: "Fin 0 \<le> a \<Longrightarrow> Fin 0 \<le> b \<Longrightarrow> c \<le> a + b + (c :: efloat)"
  by (cases a; cases b; cases c) auto

lemma efloat_less_PInf: "(a < PInf) = isfinite a"
  by (cases a) (auto simp: isfinite_def)

subsection \<open>Reading \<open>g\<close> and \<open>rhs\<close> after the writes\<close>

lemma g_setG: "g (setG s c v) c' = (if c' = c then v else g s c')"
  by (simp add: g_def setG_def dataFor_def split: option.splits)

lemma rhs_setG: "rhs (setG s c v) c' = rhs s c'"
  by (simp add: rhs_def setG_def dataFor_def split: option.splits)

lemma g_setRhs: "g (setRhs s c v) c' = g s c'"
  by (simp add: g_def setRhs_def dataFor_def split: option.splits)

lemma rhs_setRhs: "rhs (setRhs s c v) c' = (if c' = c then v else rhs s c')"
  by (simp add: rhs_def setRhs_def dataFor_def split: option.splits)

lemma g_upd [simp]:
  "g (s\<lparr>m_openTable := ot\<rparr>) = g s"
  "g (s\<lparr>m_openList := ol\<rparr>) = g s"
  "g (s\<lparr>m_expandedNodes := en\<rparr>) = g s"
  "g (s\<lparr>m_queueSequence := qs\<rparr>) = g s"
  "g (s\<lparr>m_pendingUpdates := pu\<rparr>) = g s"
  by (simp_all add: g_def fun_eq_iff)

lemma rhs_upd [simp]:
  "rhs (s\<lparr>m_openTable := ot\<rparr>) = rhs s"
  "rhs (s\<lparr>m_openList := ol\<rparr>) = rhs s"
  "rhs (s\<lparr>m_expandedNodes := en\<rparr>) = rhs s"
  "rhs (s\<lparr>m_queueSequence := qs\<rparr>) = rhs s"
  "rhs (s\<lparr>m_pendingUpdates := pu\<rparr>) = rhs s"
  by (simp_all add: rhs_def fun_eq_iff)

lemma g_pushOpen [simp]: "g (pushOpen s c k) = g s"
  by (simp add: pushOpen_def g_def fun_eq_iff)

lemma rhs_pushOpen [simp]: "rhs (pushOpen s c k) = rhs s"
  by (simp add: pushOpen_def rhs_def fun_eq_iff)

lemma g_queuePop [simp]: "g (queuePop tie s) = g s"
  by (simp add: queuePop_def)

lemma rhs_queuePop [simp]: "rhs (queuePop tie s) = rhs s"
  by (simp add: queuePop_def)

lemma table_setG [simp]: "m_openTable (setG s c v) = m_openTable s"
  by (simp add: setG_def)

lemma table_setRhs [simp]: "m_openTable (setRhs s c v) = m_openTable s"
  by (simp add: setRhs_def)

lemma list_setG [simp]: "m_openList (setG s c v) = m_openList s"
  by (simp add: setG_def)

lemma list_setRhs [simp]: "m_openList (setRhs s c v) = m_openList s"
  by (simp add: setRhs_def)

lemma goal_config: "config s' = config s \<Longrightarrow> m_goalCell s' = m_goalCell s"
  by (simp add: config_def)

lemma start_config: "config s' = config s \<Longrightarrow> m_startCell s' = m_startCell s"
  by (simp add: config_def)

lemma map_config: "config s' = config s \<Longrightarrow> m_map s' = m_map s"
  by (simp add: config_def)

lemma initialized_config: "config s' = config s \<Longrightarrow> m_initialized s' = m_initialized s"
  by (simp add: config_def)

subsection \<open>The new \<open>rhs\<close> of \<open>updateVertex\<close>\<close>

lemma updateVertex_eq:
  "updateVertex s c =
     (if g s c \<noteq> newRhs s c
      then pushOpen (setRhs s c (newRhs s c)) c (calculateKey (setRhs s c (newRhs s c)) c)
      else (setRhs s c (newRhs s c))\<lparr>m_openTable := (m_openTable s)(c := None)\<rparr>)"
  by (simp add: updateVertex_def newRhs_def Let_def g_setRhs rhs_setRhs)

lemma g_updateVertex [simp]: "g (updateVertex s c) = g s"
  by (simp add: updateVertex_eq fun_eq_iff g_setRhs)

lemma rhs_updateVertex: "rhs (updateVertex s c) c' = (if c' = c then newRhs s c else rhs s c')"
  by (simp add: updateVertex_eq rhs_setRhs)

lemma nonnegD: "nonneg s \<Longrightarrow> Fin 0 \<le> g s c" "nonneg s \<Longrightarrow> Fin 0 \<le> rhs s c"
  unfolding nonneg_def by blast+

lemma nonnegI: "(\<And>c. Fin 0 \<le> g s c) \<Longrightarrow> (\<And>c. Fin 0 \<le> rhs s c) \<Longrightarrow> nonneg s"
  unfolding nonneg_def by blast

lemma traversalCost_pos: "0 < traversalCost grid c d"
  by (simp add: traversalCost_def Let_def sqrt2f_def)

lemma edgeCost_nonneg: "Fin 0 \<le> edgeCost s a b"
  using traversalCost_pos [of "m_map s" b] by (auto simp: edgeCost_def Let_def less_imp_le)

lemma foldl_minRhsStep_nonneg:
  assumes "nonneg s" "Fin 0 \<le> m"
  shows "Fin 0 \<le> foldl (minRhsStep s c) m nbs"
  using assms(2)
proof (induction nbs arbitrary: m)
  case Nil
  then show ?case by simp
next
  case (Cons n nbs)
  have "Fin 0 \<le> g s n" using assms(1) by (rule nonnegD)
  then have "Fin 0 \<le> edgeCost s c n + g s n"
    using edgeCost_nonneg [of s c n] by (rule efloat_add_nonneg [rotated])
  then have "Fin 0 \<le> minRhsStep s c m n" using Cons.prems by (simp add: minRhsStep_def Let_def)
  then show ?case using Cons.IH by simp
qed

lemma newRhs_nonneg: "nonneg s \<Longrightarrow> Fin 0 \<le> newRhs s c"
  by (simp add: newRhs_def foldl_minRhsStep_nonneg)

lemma nonneg_updateVertex: "nonneg s \<Longrightarrow> nonneg (updateVertex s c)"
  using newRhs_nonneg [of s c] by (intro nonnegI) (simp_all add: nonnegD rhs_updateVertex)

lemma tableOk_updateVertex: "tableOk s \<Longrightarrow> tableOk (updateVertex s c)"
  unfolding tableOk_def
  by (auto simp: updateVertex_eq pushOpen_def g_setRhs rhs_setRhs simp del: split_paired_All)

lemma goalDone_updateVertex: "goalDone s \<Longrightarrow> goalDone (updateVertex s c)"
  using goal_config [OF config_updateVertex, of s c]
  by (auto simp: goalDone_def rhs_updateVertex newRhs_def)

subsection \<open>The top of a queue\<close>

lemma minimal_index:
  assumes irrefl: "\<And>a. \<not> P a a" and trans: "\<And>a b c. P a b \<Longrightarrow> P b c \<Longrightarrow> P a c"
    and "xs \<noteq> []"
  shows "\<exists>i < length xs. \<forall>e\<in>set xs. \<not> P e (xs ! i)"
  using assms(3)
proof (induction xs)
  case Nil
  then show ?case by simp
next
  case (Cons x xs)
  show ?case
  proof (cases "xs = []")
    case True
    then show ?thesis using irrefl by auto
  next
    case False
    then obtain j where j: "j < length xs" "\<forall>e\<in>set xs. \<not> P e (xs ! j)" using Cons.IH by blast
    show ?thesis
    proof (cases "P x (xs ! j)")
      case True
      have "\<forall>e\<in>set (x # xs). \<not> P e ((x # xs) ! 0)"
      proof
        fix e assume "e \<in> set (x # xs)"
        then show "\<not> P e ((x # xs) ! 0)" using irrefl trans True j(2) by auto
      qed
      then show ?thesis by blast
    next
      case False
      then have "\<forall>e\<in>set (x # xs). \<not> P e ((x # xs) ! Suc j)" using j(2) by simp
      moreover have "Suc j < length (x # xs)" using j(1) by simp
      ultimately show ?thesis by blast
    qed
  qed
qed

lemma topIndex_minimal:
  assumes irrefl: "\<And>a. \<not> P a a" and trans: "\<And>a b c. P a b \<Longrightarrow> P b c \<Longrightarrow> P a c"
    and "xs \<noteq> []"
  shows "topIndex tie P xs < length xs \<and> (\<forall>e\<in>set xs. \<not> P e (xs ! topIndex tie P xs))"
proof -
  define cands where "cands = filter (\<lambda>i. \<forall>e\<in>set xs. \<not> P e (xs ! i)) [0 ..< length xs]"
  obtain i where "i < length xs" "\<forall>e\<in>set xs. \<not> P e (xs ! i)"
    using minimal_index [of P xs] assms by blast
  then have "i \<in> set cands" by (simp add: cands_def)
  then have "cands \<noteq> []" by auto
  then have "cands ! (tie xs mod length cands) \<in> set cands" by simp
  then have "topIndex tie P xs \<in> set cands" by (simp add: topIndex_def cands_def Let_def)
  then show ?thesis by (simp add: cands_def)
qed

lemma keyLess_irrefl: "\<not> keyLess a a"
  by (simp add: keyLess_def)

lemma keyLess_trans: "keyLess a b \<Longrightarrow> keyLess b c \<Longrightarrow> keyLess a c"
  by (auto simp: keyLess_def split: if_splits)

lemma queueTop_index:
  assumes "m_openList s \<noteq> []"
  shows "topIndex tie queueBefore (m_openList s) < length (m_openList s)"
  using topIndex_minimal [of queueBefore "m_openList s" tie] assms keyLess_irrefl keyLess_trans
  unfolding queueBefore_def by blast

lemma filter_removeAt:
  assumes "i < length xs"
  shows "length (filter P (removeAt i xs)) = length (filter P xs) - (if P (xs ! i) then 1 else 0)"
proof -
  have "xs = take i xs @ xs ! i # drop (Suc i) xs" using assms by (rule id_take_nth_drop)
  then have "filter P xs = filter P (take i xs) @ filter P [xs ! i] @ filter P (drop (Suc i) xs)"
    by (metis append_Cons append_Nil filter_append)
  then show ?thesis by (simp add: removeAt_def)
qed

subsection \<open>Entries below the key of a start that is the goal\<close>

lemma efloat_km_le:
  assumes "Fin 0 \<le> m" "0 \<le> h"
  shows "\<not> m + Fin h + Fin km < Fin km" and "\<not> m < Fin 0"
  using assms by (cases m; simp)+

lemma calculateKey_not_less:
  assumes "nonneg s"
  shows "\<not> keyLess (calculateKey s c) (baseKey s)"
proof -
  define m where "m = min (g s c) (rhs s c)"
  have m: "Fin 0 \<le> m" using nonnegD [OF assms] by (simp add: m_def min_def)
  show ?thesis
    using efloat_km_le(1) [OF m computeHeuristic_nonneg [of "m_startCell s" c], of "m_keyModifier s"]
      efloat_km_le(2) [OF m computeHeuristic_nonneg [of "m_startCell s" c]]
    by (simp add: keyLess_def calculateKey_def baseKey_def Let_def m_def [symmetric])
qed

lemma baseKey_config: "config s' = config s \<Longrightarrow> baseKey s' = baseKey s"
  by (simp add: baseKey_def config_def)

lemma nonneg_setRhs: "nonneg s \<Longrightarrow> Fin 0 \<le> v \<Longrightarrow> nonneg (setRhs s c v)"
  by (intro nonnegI) (simp_all add: nonnegD g_setRhs rhs_setRhs)

lemma nonneg_setG: "nonneg s \<Longrightarrow> Fin 0 \<le> v \<Longrightarrow> nonneg (setG s c v)"
  by (intro nonnegI) (simp_all add: nonnegD g_setG rhs_setG)

lemma counts_updateVertex:
  assumes "nonneg s"
  shows "lessCount (baseKey s) (updateVertex s c) = lessCount (baseKey s) s
       \<and> geCount (baseKey s) (updateVertex s c) \<le> geCount (baseKey s) s + 1"
proof -
  define s1 where "s1 = setRhs s c (newRhs s c)"
  have "nonneg s1" unfolding s1_def using assms newRhs_nonneg by (intro nonneg_setRhs)
  moreover have "baseKey s1 = baseKey s" by (rule baseKey_config) (simp add: s1_def)
  ultimately have "\<not> keyLess (calculateKey s1 c) (baseKey s)"
    using calculateKey_not_less [of s1 c] by simp
  then show ?thesis
    by (simp add: updateVertex_eq s1_def [symmetric] lessCount_def geCount_def pushOpen_def)
       (simp add: s1_def)
qed

lemma counts_foldl_updateVertex:
  assumes "nonneg s"
  shows "lessCount (baseKey s) (foldl updateVertex s cs) = lessCount (baseKey s) s
       \<and> geCount (baseKey s) (foldl updateVertex s cs) \<le> geCount (baseKey s) s + length cs"
  using assms
proof (induction cs arbitrary: s)
  case Nil
  then show ?case by simp
next
  case (Cons c cs)
  have n: "nonneg (updateVertex s c)" using Cons.prems by (rule nonneg_updateVertex)
  have b: "baseKey (updateVertex s c) = baseKey s" by (rule baseKey_config) simp
  show ?case
    using Cons.IH [OF n] counts_updateVertex [OF Cons.prems, of c] unfolding b by simp
qed

lemma coreInv_updateVertex: "coreInv s \<Longrightarrow> coreInv (updateVertex s c)"
  by (simp add: coreInv_def nonneg_updateVertex tableOk_updateVertex goalDone_updateVertex)

lemma coreInv_foldl_updateVertex: "coreInv s \<Longrightarrow> coreInv (foldl updateVertex s cs)"
  by (induction cs arbitrary: s) (simp_all add: coreInv_updateVertex)

lemma nonneg_foldl_updateVertex: "nonneg s \<Longrightarrow> nonneg (foldl updateVertex s cs)"
  by (induction cs arbitrary: s) (simp_all add: nonneg_updateVertex)

lemma tableOk_foldl_updateVertex: "tableOk s \<Longrightarrow> tableOk (foldl updateVertex s cs)"
  by (induction cs arbitrary: s) (simp_all add: tableOk_updateVertex)

lemma goalDone_foldl_updateVertex: "goalDone s \<Longrightarrow> goalDone (foldl updateVertex s cs)"
  by (induction cs arbitrary: s) (simp_all add: goalDone_updateVertex)

lemma length_getNeighbors: "length (getNeighbors s c) \<le> 8"
proof -
  have "length (filter (neighborOk s c) offsets) \<le> length offsets" by (rule length_filter_le)
  then show ?thesis by (simp add: getNeighbors_def offsets_def)
qed

lemma nonneg_upd [simp]:
  "nonneg (s\<lparr>m_openTable := ot\<rparr>) = nonneg s"
  "nonneg (s\<lparr>m_openList := ol\<rparr>) = nonneg s"
  "nonneg (s\<lparr>m_expandedNodes := en\<rparr>) = nonneg s"
  by (simp_all add: nonneg_def)

lemma nonneg_queuePop [simp]: "nonneg (queuePop tie s) = nonneg s"
  by (simp add: queuePop_def)

lemma tableOk_upd [simp]:
  "tableOk (s\<lparr>m_openList := ol\<rparr>) = tableOk s"
  "tableOk (s\<lparr>m_expandedNodes := en\<rparr>) = tableOk s"
  by (simp_all add: tableOk_def)

lemma goalDone_upd [simp]:
  "goalDone (s\<lparr>m_openTable := ot\<rparr>) = goalDone s"
  "goalDone (s\<lparr>m_openList := ol\<rparr>) = goalDone s"
  "goalDone (s\<lparr>m_expandedNodes := en\<rparr>) = goalDone s"
  by (simp_all add: goalDone_def)

lemma tableOk_erase: "tableOk s \<Longrightarrow> tableOk (s\<lparr>m_openTable := (m_openTable s)(u := None)\<rparr>)"
  unfolding tableOk_def by (auto simp del: split_paired_All)

lemma tableOk_setG:
  assumes "tableOk s" "m_openTable s u = None"
  shows "tableOk (setG s u v)"
  using assms unfolding tableOk_def
  by (auto simp: g_setG rhs_setG simp del: split_paired_All)

lemma goalDone_setG: "goalDone s \<Longrightarrow> u \<noteq> m_goalCell s \<Longrightarrow> goalDone (setG s u v)"
  by (simp add: goalDone_def g_setG rhs_setG setG_def [of s u v, THEN arg_cong, of m_goalCell])

lemma counts_upd [simp]:
  "lessCount K (s\<lparr>m_openTable := ot\<rparr>) = lessCount K s"
  "lessCount K (s\<lparr>m_expandedNodes := en\<rparr>) = lessCount K s"
  "lessCount K (setG s c v) = lessCount K s"
  "geCount K (s\<lparr>m_openTable := ot\<rparr>) = geCount K s"
  "geCount K (s\<lparr>m_expandedNodes := en\<rparr>) = geCount K s"
  "geCount K (setG s c v) = geCount K s"
  by (simp_all add: lessCount_def geCount_def)

lemma baseKey_upd [simp]:
  "baseKey (s\<lparr>m_openTable := ot\<rparr>) = baseKey s"
  "baseKey (s\<lparr>m_expandedNodes := en\<rparr>) = baseKey s"
  "baseKey (s\<lparr>m_openList := ol\<rparr>) = baseKey s"
  "baseKey (setG s c v) = baseKey s"
  "baseKey (queuePop tie s) = baseKey s"
  "baseKey (updateVertex s c) = baseKey s"
  "baseKey (foldl updateVertex s cs) = baseKey s"
  by (rule baseKey_config, simp)+

lemma cspBody_eq:
  "cspBody tie (s, ex) =
     (if stale s (queueTop tie s) then (queuePop tie s, ex)
      else
        (expand
           (if q_cell (queueTop tie s) \<notin> ex
            then (queuePop tie s)\<lparr>m_openTable := (m_openTable s)(q_cell (queueTop tie s) := None),
                   m_expandedNodes := m_expandedNodes s @ [q_cell (queueTop tie s)]\<rparr>
            else (queuePop tie s)\<lparr>m_openTable := (m_openTable s)(q_cell (queueTop tie s) := None)\<rparr>)
           (q_cell (queueTop tie s)),
         insert (q_cell (queueTop tie s)) ex))"
  by (simp add: cspBody_def expand_def Let_def queuePop_def)

lemma expand_coreInv:
  assumes "coreInv s" "m_openTable s u = None" "u \<noteq> m_goalCell s"
  shows "coreInv (expand s u)"
proof -
  have n: "nonneg s" and t: "tableOk s" and gd: "goalDone s" using assms(1) by (simp_all add: coreInv_def)
  have "coreInv (setG s u v)" if "Fin 0 \<le> v" for v
    using that n t gd assms(2,3) by (simp add: coreInv_def nonneg_setG tableOk_setG goalDone_setG)
  then have "coreInv (setG s u (rhs s u))" "coreInv (setG s u PInf)"
    using nonnegD(2) [OF n] by simp_all
  then show ?thesis
    by (simp add: expand_def Let_def coreInv_foldl_updateVertex coreInv_updateVertex)
qed

lemma expand_counts:
  assumes "nonneg s"
  shows "lessCount (baseKey s) (expand s u) = lessCount (baseKey s) s
       \<and> geCount (baseKey s) (expand s u) \<le> geCount (baseKey s) s + 9"
proof (cases "g s u > rhs s u")
  case True
  define s4 where "s4 = setG s u (rhs s u)"
  have n4: "nonneg s4" unfolding s4_def using assms nonnegD(2) [OF assms] by (intro nonneg_setG)
  have "length (getNeighbors s4 u) \<le> 8" by (rule length_getNeighbors)
  then show ?thesis
    using counts_foldl_updateVertex [OF n4, of "getNeighbors s4 u"] True
    by (simp add: expand_def Let_def s4_def [symmetric]) (simp add: s4_def)
next
  case False
  define s4 where "s4 = setG s u PInf"
  define s5 where "s5 = updateVertex s4 u"
  have n4: "nonneg s4" unfolding s4_def using assms by (intro nonneg_setG) simp_all
  have n5: "nonneg s5" unfolding s5_def using n4 by (rule nonneg_updateVertex)
  have b4: "baseKey s4 = baseKey s" by (simp add: s4_def)
  have b5: "baseKey s5 = baseKey s" by (simp add: s5_def s4_def)
  have c4: "lessCount (baseKey s) s4 = lessCount (baseKey s) s" "geCount (baseKey s) s4 = geCount (baseKey s) s"
    by (simp_all add: s4_def)
  have c5: "lessCount (baseKey s) s5 = lessCount (baseKey s) s4" "geCount (baseKey s) s5 \<le> geCount (baseKey s) s4 + 1"
    using counts_updateVertex [OF n4, of u] unfolding b4 s5_def by simp_all
  have "length (getNeighbors s5 u) \<le> 8" by (rule length_getNeighbors)
  then have "lessCount (baseKey s) (foldl updateVertex s5 (getNeighbors s5 u)) = lessCount (baseKey s) s
       \<and> geCount (baseKey s) (foldl updateVertex s5 (getNeighbors s5 u)) \<le> geCount (baseKey s) s + 9"
    using counts_foldl_updateVertex [OF n5, of "getNeighbors s5 u"] c4 c5 unfolding b5 by linarith
  then show ?thesis using False
    by (simp add: expand_def Let_def s4_def [symmetric] s5_def [symmetric])
qed

lemma stale_valid:
  assumes "\<not> stale s e" "tableOk s" "goalDone s"
  shows "m_openTable s (q_cell e) \<noteq> None" and "q_cell e \<noteq> m_goalCell s"
proof -
  show t: "m_openTable s (q_cell e) \<noteq> None" using assms(1) by (auto simp: stale_def split: option.splits)
  then have "g s (q_cell e) \<noteq> rhs s (q_cell e)" using assms(2) unfolding tableOk_def by blast
  then show "q_cell e \<noteq> m_goalCell s" using assms(3) by (auto simp: goalDone_def)
qed

lemma coreInv_popped:
  assumes "coreInv s"
  shows "coreInv ((queuePop tie s)\<lparr>m_openTable := (m_openTable s)(u := None), m_expandedNodes := en\<rparr>)"
    and "coreInv ((queuePop tie s)\<lparr>m_openTable := (m_openTable s)(u := None)\<rparr>)"
    and "coreInv (queuePop tie s)"
proof -
  have "tableOk (s\<lparr>m_openTable := (m_openTable s)(u := None)\<rparr>)"
    using assms by (simp add: coreInv_def tableOk_erase)
  then have "tableOk ((queuePop tie s)\<lparr>m_openTable := (m_openTable s)(u := None)\<rparr>)"
    by (simp add: tableOk_def queuePop_def)
  then show "coreInv ((queuePop tie s)\<lparr>m_openTable := (m_openTable s)(u := None), m_expandedNodes := en\<rparr>)"
    "coreInv ((queuePop tie s)\<lparr>m_openTable := (m_openTable s)(u := None)\<rparr>)"
    using assms by (simp_all add: coreInv_def queuePop_def)
  show "coreInv (queuePop tie s)" using assms by (simp add: coreInv_def queuePop_def)
qed

lemma cspBody_coreInv:
  assumes "coreInv s"
  shows "coreInv (fst (cspBody tie (s, ex)))"
proof (cases "stale s (queueTop tie s)")
  case True
  then show ?thesis using coreInv_popped(3) [OF assms] by (simp add: cspBody_eq)
next
  case False
  define u where "u = q_cell (queueTop tie s)"
  have u: "u \<noteq> m_goalCell s"
    using stale_valid(2) [OF False] assms by (simp add: coreInv_def u_def)
  have g1: "m_goalCell ((queuePop tie s)\<lparr>m_openTable := (m_openTable s)(u := None), m_expandedNodes := en\<rparr>) = m_goalCell s"
    for en by (simp add: queuePop_def)
  have g2: "m_goalCell ((queuePop tie s)\<lparr>m_openTable := (m_openTable s)(u := None)\<rparr>) = m_goalCell s"
    by (simp add: queuePop_def)
  show ?thesis
    using False u g1 g2 coreInv_popped(1,2) [OF assms, where tie = tie and u = u]
    by (simp add: cspBody_eq u_def [symmetric] expand_coreInv)
qed

lemma startKey_goal:
  assumes "goalDone s" "m_startCell s = m_goalCell s"
  shows "calculateKey s (m_startCell s) = baseKey s" and "rhs s (m_startCell s) = g s (m_startCell s)"
  using assms by (simp_all add: calculateKey_def baseKey_def goalDone_def Let_def computeHeuristic_def)

lemma count_pos:
  assumes "i < length xs" "P (xs ! i)"
  shows "0 < length (filter P xs)"
  using assms by (metis filter_empty_conv length_greater_0_conv nth_mem)

lemma counts_queuePop:
  assumes "m_openList s \<noteq> []"
  shows "if keyLess (q_key (queueTop tie s)) K
         then lessCount K (queuePop tie s) < lessCount K s \<and> geCount K (queuePop tie s) = geCount K s
         else lessCount K (queuePop tie s) = lessCount K s \<and> geCount K (queuePop tie s) < geCount K s"
proof -
  define i where "i = topIndex tie queueBefore (m_openList s)"
  have i: "i < length (m_openList s)" unfolding i_def using assms by (rule queueTop_index)
  have top: "queueTop tie s = m_openList s ! i" by (simp add: queueTop_def i_def)
  have pop: "m_openList (queuePop tie s) = removeAt i (m_openList s)" by (simp add: queuePop_def i_def)
  show ?thesis
  proof (cases "keyLess (q_key (queueTop tie s)) K")
    case True
    then have "0 < length (filter (\<lambda>e. keyLess (q_key e) K) (m_openList s))"
      using i top by (intro count_pos [of i]) simp_all
    then show ?thesis using True top
      by (simp add: lessCount_def geCount_def pop filter_removeAt [OF i])
  next
    case False
    then have "0 < length (filter (\<lambda>e. \<not> keyLess (q_key e) K) (m_openList s))"
      using i top by (intro count_pos [of i]) simp_all
    then show ?thesis using False top
      by (simp add: lessCount_def geCount_def pop filter_removeAt [OF i])
  qed
qed

lemma cspBody_measure:
  assumes inv: "coreInv s" and sg: "m_startCell s = m_goalCell s" and cond: "cspCond tie (s, ex)"
  shows "cspMeasure (cspBody tie (s, ex)) < cspMeasure (s, ex)"
proof -
  define K where "K = baseKey s"
  have ne: "m_openList s \<noteq> []" using cond by (simp add: cspCond_def Let_def)
  have gd: "goalDone s" and n: "nonneg s" using inv by (simp_all add: coreInv_def)
  show ?thesis
  proof (cases "stale s (queueTop tie s)")
    case True
    then show ?thesis using counts_queuePop [OF ne, of tie K]
      by (auto simp: cspBody_eq cspMeasure_def K_def split: if_splits)
  next
    case False
    define u where "u = q_cell (queueTop tie s)"
    define s3 where "s3 = (if u \<notin> ex
            then (queuePop tie s)\<lparr>m_openTable := (m_openTable s)(u := None),
                   m_expandedNodes := m_expandedNodes s @ [u]\<rparr>
            else (queuePop tie s)\<lparr>m_openTable := (m_openTable s)(u := None)\<rparr>)"
    have "\<not> cspBreak s (queueTop tie s)" using cond False by (simp add: cspCond_def Let_def)
    then have less: "keyLess (q_key (queueTop tie s)) K"
      using startKey_goal [OF gd sg] by (simp add: cspBreak_def Let_def K_def)
    have pop: "lessCount K (queuePop tie s) < lessCount K s" "geCount K (queuePop tie s) = geCount K s"
      using counts_queuePop [OF ne, of tie K] less by simp_all
    have n3: "nonneg s3" using n by (simp add: s3_def)
    have b3: "baseKey s3 = K" by (simp add: s3_def K_def)
    have c3: "lessCount K s3 = lessCount K (queuePop tie s)" "geCount K s3 = geCount K (queuePop tie s)"
      by (simp_all add: s3_def)
    have ex: "lessCount K (expand s3 u) = lessCount K s3" "geCount K (expand s3 u) \<le> geCount K s3 + 9"
      using expand_counts [OF n3, of u] unfolding b3 by simp_all
    have be: "baseKey (expand s3 u) = K"
      by (simp add: expand_def Let_def b3)
    have body: "fst (cspBody tie (s, ex)) = expand s3 u"
      using False by (simp add: cspBody_eq s3_def u_def)
    show ?thesis
      unfolding cspMeasure_def body be using pop c3 ex by (simp add: K_def [symmetric])
  qed
qed

lemma cspBody_start_goal:
  "m_startCell (fst (cspBody tie st)) = m_startCell (fst st)"
  "m_goalCell (fst (cspBody tie st)) = m_goalCell (fst st)"
  using config_cspBody [of tie st] by (simp_all add: config_def)

lemma csp_terminates_at_goal:
  assumes "coreInv s" "m_startCell s = m_goalCell s"
  shows "\<exists>t. while_option (cspCond tie) (cspBody tie) (s, ex) = Some t"
proof (rule measure_while_option_Some [where
      P = "\<lambda>st. coreInv (fst st) \<and> m_startCell (fst st) = m_goalCell (fst st)" and f = cspMeasure])
  show "coreInv (fst (s, ex)) \<and> m_startCell (fst (s, ex)) = m_goalCell (fst (s, ex))"
    using assms by simp
next
  fix st :: "DStarLitePlanner \<times> ivec2 set"
  assume P: "coreInv (fst st) \<and> m_startCell (fst st) = m_goalCell (fst st)" and c: "cspCond tie st"
  obtain s' ex' where st: "st = (s', ex')" by (cases st)
  show "(coreInv (fst (cspBody tie st)) \<and> m_startCell (fst (cspBody tie st)) = m_goalCell (fst (cspBody tie st)))
        \<and> cspMeasure (cspBody tie st) < cspMeasure st"
    using P c cspBody_coreInv [of s' tie ex'] cspBody_measure [of s' tie ex'] cspBody_start_goal [of tie st]
    by (simp add: st)
qed

lemma csp_coreInv:
  assumes "while_option (cspCond tie) (cspBody tie) (s, ex) = Some t" "coreInv s"
  shows "coreInv (fst t)"
proof (rule while_option_rule [where P = "\<lambda>st. coreInv (fst st)", OF _ assms(1)])
  show "coreInv (fst (s, ex))" using assms(2) by simp
next
  fix st :: "DStarLitePlanner \<times> ivec2 set"
  assume "coreInv (fst st)"
  then show "coreInv (fst (cspBody tie st))" using cspBody_coreInv [of "fst st" tie "snd st"] by simp
qed

lemma initShapeD:
  assumes "initShape s"
  shows "g s c = PInf" and "rhs s (m_goalCell s) = Fin 0"
    and "c \<noteq> m_goalCell s \<Longrightarrow> rhs s c = PInf"
    and "m_openTable s = [m_goalCell s \<mapsto> calculateKey s (m_goalCell s)]"
    and "m_openList s \<noteq> []"
    and "e \<in> set (m_openList s) \<Longrightarrow> q_cell e = m_goalCell s \<and> q_key e = calculateKey s (m_goalCell s)"
  using assms unfolding initShape_def by blast+

lemma initShape_initializePlanner: "initShape (initializePlanner s)"
  unfolding initShape_def
  by (simp add: initializePlanner_def Let_def resetPlannerState_def pushOpen_def setRhs_def dataFor_def
      g_def rhs_def calculateKey_def)

lemma foldl_minRhsStep_PInf:
  assumes "\<And>n. g s n = PInf"
  shows "foldl (minRhsStep s c) PInf nbs = PInf"
proof (induction nbs)
  case Nil
  then show ?case by simp
next
  case (Cons n nbs)
  have "minRhsStep s c PInf n = PInf"
    by (cases "edgeCost s c n") (simp_all add: minRhsStep_def Let_def assms isfinite_def)
  then show ?case using Cons.IH by simp
qed

lemma calculateKey_cong:
  assumes "g s' c = g s c" "rhs s' c = rhs s c" "config s' = config s"
  shows "calculateKey s' c = calculateKey s c"
  using assms by (simp add: calculateKey_def config_def)

lemma initShape_updateVertex:
  assumes "initShape s"
  shows "initShape (updateVertex s c)"
proof -
  note sh = initShapeD [OF assms]
  have gl: "m_goalCell (updateVertex s c) = m_goalCell s"
    using goal_config [OF config_updateVertex] .
  have nr: "newRhs s c = rhs s c"
  proof (cases "c = m_goalCell s")
    case True
    then show ?thesis using sh(2) by (simp add: newRhs_def)
  next
    case False
    then show ?thesis using sh(3) [OF False] foldl_minRhsStep_PInf [of s c] sh(1)
      by (simp add: newRhs_def)
  qed
  have r: "rhs (updateVertex s c) = rhs s" by (simp add: fun_eq_iff rhs_updateVertex nr)
  have key: "calculateKey (updateVertex s c) (m_goalCell s) = calculateKey s (m_goalCell s)"
    by (rule calculateKey_cong) (simp_all add: r)
  have key1: "calculateKey (setRhs s c (newRhs s c)) (m_goalCell s) = calculateKey s (m_goalCell s)"
    by (rule calculateKey_cong) (simp_all add: g_setRhs rhs_setRhs nr)
  show ?thesis
  proof (cases "c = m_goalCell s")
    case True
    have ne: "g s c \<noteq> newRhs s c" using True sh(1) [of c] sh(2) nr by simp
    have "m_openTable (updateVertex s c) = [m_goalCell s \<mapsto> calculateKey s (m_goalCell s)]"
      using ne True sh(4) key1 by (simp add: updateVertex_eq pushOpen_def)
    moreover have "m_openList (updateVertex s c)
        = m_openList s @ [\<lparr>q_cell = m_goalCell s, q_key = calculateKey s (m_goalCell s),
                           q_sequence = m_queueSequence (setRhs s c (newRhs s c))\<rparr>]"
      using ne True key1 by (simp add: updateVertex_eq pushOpen_def)
    ultimately show ?thesis
      unfolding initShape_def gl r key using sh(1,2,3,6) by auto
  next
    case False
    have eq: "g s c = newRhs s c" using sh(1) [of c] sh(3) [OF False] nr by simp
    have "m_openTable s c = None" using sh(4) False by simp
    then have "(m_openTable s)(c := None) = m_openTable s" by (rule fun_upd_idem)
    then have "m_openTable (updateVertex s c) = [m_goalCell s \<mapsto> calculateKey s (m_goalCell s)]"
      using eq sh(4) by (simp add: updateVertex_eq)
    moreover have "m_openList (updateVertex s c) = m_openList s"
      using eq by (simp add: updateVertex_eq)
    ultimately show ?thesis
      unfolding initShape_def gl r key using sh(1,2,3,5,6) by auto
  qed
qed

lemma initShape_foldl_updateVertex: "initShape s \<Longrightarrow> initShape (foldl updateVertex s cs)"
  by (induction cs arbitrary: s) (simp_all add: initShape_updateVertex)

lemma initShape_upd [simp]:
  "initShape (s\<lparr>m_pendingUpdates := pu\<rparr>) = initShape s"
  "initShape (s\<lparr>m_expandedNodes := en\<rparr>) = initShape s"
  by (simp_all add: initShape_def calculateKey_def)

lemma initShape_applyPendingUpdates: "initShape s \<Longrightarrow> initShape (applyPendingUpdates s)"
  by (simp add: applyPendingUpdates_def Let_def initShape_foldl_updateVertex)

lemma initShape_preSearch:
  assumes "\<not> m_initialized s"
  shows "initShape (preSearch s)"
proof -
  have "m_lastStart (initializePlanner s) = m_startCell (initializePlanner s)"
    using config_initializePlanner [of s] by (simp add: config_def)
  then show ?thesis using assms
    by (simp add: preSearch_def Let_def initShape_updateVertex initShape_applyPendingUpdates
        initShape_initializePlanner)
qed

lemma first_step:
  assumes "initShape s"
  shows "cspCond tie (s, ex)" and "coreInv (fst (cspBody tie (s, ex)))"
proof -
  note sh = initShapeD [OF assms]
  define K0 where "K0 = calculateKey s (m_goalCell s)"
  define e where "e = queueTop tie s"
  have "topIndex tie queueBefore (m_openList s) < length (m_openList s)"
    using sh(5) by (rule queueTop_index)
  then have "e \<in> set (m_openList s)" by (simp add: e_def queueTop_def)
  then have e: "q_cell e = m_goalCell s" "q_key e = K0" using sh(6) by (simp_all add: K0_def)
  have tab: "m_openTable s (m_goalCell s) = Some K0" using sh(4) by (simp add: K0_def)
  have ns: "\<not> stale s e" using e tab by (simp add: stale_def)
  have k0: "K0 = \<lparr>k1 = Fin (0 + computeHeuristic (m_startCell s) (m_goalCell s) + m_keyModifier s), k2 = Fin 0\<rparr>"
    using sh(1) [of "m_goalCell s"] sh(2) by (simp add: K0_def calculateKey_def Let_def min_def)
  have nb: "\<not> cspBreak s e"
  proof (cases "m_startCell s = m_goalCell s")
    case True
    then show ?thesis using sh(1) [of "m_goalCell s"] sh(2) by (simp add: cspBreak_def Let_def)
  next
    case False
    have "calculateKey s (m_startCell s) = \<lparr>k1 = PInf, k2 = PInf\<rparr>"
      using sh(1) [of "m_startCell s"] sh(3) [OF False] by (simp add: calculateKey_def Let_def)
    then show ?thesis using e k0 by (simp add: cspBreak_def Let_def keyLess_def)
  qed
  show "cspCond tie (s, ex)" using sh(5) nb by (simp add: cspCond_def Let_def e_def)
  define s3 where "s3 = (if m_goalCell s \<notin> ex
            then (queuePop tie s)\<lparr>m_openTable := (m_openTable s)(m_goalCell s := None),
                   m_expandedNodes := m_expandedNodes s @ [m_goalCell s]\<rparr>
            else (queuePop tie s)\<lparr>m_openTable := (m_openTable s)(m_goalCell s := None)\<rparr>)"
  have body: "fst (cspBody tie (s, ex)) = expand s3 (m_goalCell s)"
    using ns e by (simp add: cspBody_eq e_def [symmetric] s3_def)
  have g3: "g s3 = g s" and r3: "rhs s3 = rhs s" and gl3: "m_goalCell s3 = m_goalCell s"
    and t3: "m_openTable s3 = Map.empty"
    using sh(4) by (simp_all add: s3_def queuePop_def)
  define s4 where "s4 = setG s3 (m_goalCell s) (Fin 0)"
  have ex4: "expand s3 (m_goalCell s) = foldl updateVertex s4 (getNeighbors s4 (m_goalCell s))"
    using sh(1) [of "m_goalCell s"] sh(2) by (simp add: expand_def g3 r3 Let_def s4_def)
  have gl4: "m_goalCell s4 = m_goalCell s" by (simp add: s4_def setG_def gl3)
  have "nonneg s4"
  proof (rule nonnegI)
    fix c show "Fin 0 \<le> g s4 c" using sh(1) [of c] by (simp add: s4_def g_setG g3)
    show "Fin 0 \<le> rhs s4 c" using sh(2) sh(3) [of c] by (cases "c = m_goalCell s") (simp_all add: s4_def rhs_setG r3)
  qed
  moreover have "tableOk s4" by (simp add: tableOk_def s4_def t3)
  moreover have "goalDone s4" using sh(2) by (simp add: goalDone_def gl4) (simp add: s4_def g_setG rhs_setG r3)
  ultimately have "coreInv s4" by (simp add: coreInv_def)
  then show "coreInv (fst (cspBody tie (s, ex)))"
    unfolding body ex4 by (rule coreInv_foldl_updateVertex)
qed

lemma coreInv_cong:
  assumes "m_nodeInfo s' = m_nodeInfo s" "m_openTable s' = m_openTable s" "m_goalCell s' = m_goalCell s"
  shows "coreInv s' = coreInv s"
  using assms by (simp add: coreInv_def nonneg_def tableOk_def goalDone_def g_def rhs_def)

lemma csp_result_coreInv:
  assumes "computeShortestPath tie s0 = Some s'" and "coreInv s0 \<or> initShape s0"
  shows "coreInv s'"
proof -
  define s1 where "s1 = s0\<lparr>m_expandedNodes := []\<rparr>"
  obtain t where w: "while_option (cspCond tie) (cspBody tie) (s1, {}) = Some t" and s': "s' = fst t"
    using assms(1) by (auto simp: computeShortestPath_def s1_def)
  from assms(2) show ?thesis
  proof
    assume "coreInv s0"
    moreover have "coreInv s1 = coreInv s0" by (rule coreInv_cong) (simp_all add: s1_def)
    ultimately have "coreInv s1" by simp
    then show ?thesis using csp_coreInv [OF w] s' by simp
  next
    assume "initShape s0"
    then have sh: "initShape s1" by (simp add: s1_def)
    obtain s2 ex2 where b: "cspBody tie (s1, {}) = (s2, ex2)" by (cases "cspBody tie (s1, {})")
    have "while_option (cspCond tie) (cspBody tie) (s2, ex2) = Some t"
      using w first_step(1) [OF sh, of tie "{}"] b
      by (subst (asm) while_option_unfold) simp
    moreover have "coreInv s2" using first_step(2) [OF sh, of tie "{}"] b by simp
    ultimately show ?thesis using csp_coreInv s' by blast
  qed
qed

lemma csp_terminates:
  assumes "coreInv s0 \<or> initShape s0" and "m_startCell s0 = m_goalCell s0"
  shows "\<exists>s'. computeShortestPath tie s0 = Some s'"
proof -
  define s1 where "s1 = s0\<lparr>m_expandedNodes := []\<rparr>"
  have sg: "m_startCell s1 = m_goalCell s1" using assms(2) by (simp add: s1_def)
  have "\<exists>t. while_option (cspCond tie) (cspBody tie) (s1, {}) = Some t"
    using assms(1)
  proof
    assume "coreInv s0"
    moreover have "coreInv s1 = coreInv s0" by (rule coreInv_cong) (simp_all add: s1_def)
    ultimately have "coreInv s1" by simp
    then show ?thesis using sg by (rule csp_terminates_at_goal)
  next
    assume "initShape s0"
    then have sh: "initShape s1" by (simp add: s1_def)
    obtain s2 ex2 where b: "cspBody tie (s1, {}) = (s2, ex2)" by (cases "cspBody tie (s1, {})")
    have c2: "coreInv s2" using first_step(2) [OF sh, of tie "{}"] b by simp
    have sg2: "m_startCell s2 = m_goalCell s2"
      using cspBody_start_goal [of tie "(s1, {})"] b sg by simp
    have "\<exists>t. while_option (cspCond tie) (cspBody tie) (s2, ex2) = Some t"
      using c2 sg2 by (rule csp_terminates_at_goal)
    then show ?thesis
      using first_step(1) [OF sh, of tie "{}"] b
      by (subst while_option_unfold) simp
  qed
  then show ?thesis by (auto simp: computeShortestPath_def s1_def)
qed

lemma coreInv_applyPendingUpdates: "coreInv s \<Longrightarrow> coreInv (applyPendingUpdates s)"
proof -
  assume c: "coreInv s"
  have "coreInv (s\<lparr>m_pendingUpdates := []\<rparr>) = coreInv s" by (rule coreInv_cong) simp_all
  then show ?thesis using c by (simp add: applyPendingUpdates_def Let_def coreInv_foldl_updateVertex)
qed

lemma coreInv_preSearch:
  assumes "m_initialized s" "coreInv s"
  shows "coreInv (preSearch s)"
proof -
  define s2 where "s2 = (if m_lastStart s \<noteq> m_startCell s
                then s\<lparr>m_keyModifier := m_keyModifier s + computeHeuristic (m_lastStart s) (m_startCell s),
                        m_lastStart := m_startCell s\<rparr>
                else s)"
  have "coreInv s2 = coreInv s" by (rule coreInv_cong) (simp_all add: s2_def)
  then have "coreInv s2" using assms(2) by simp
  then have "coreInv (updateVertex (applyPendingUpdates s2) (m_startCell (applyPendingUpdates s2)))"
    by (intro coreInv_updateVertex coreInv_applyPendingUpdates)
  then show ?thesis using assms(1) by (simp add: preSearch_def Let_def s2_def)
qed

lemma preSearch_shape:
  assumes "plannerInv s"
  shows "coreInv (preSearch s) \<or> initShape (preSearch s)"
proof (cases "m_initialized s")
  case True
  then have "coreInv s" using assms by (simp add: plannerInv_def coreInv_def)
  then show ?thesis using True coreInv_preSearch by blast
next
  case False
  then show ?thesis using initShape_preSearch by blast
qed

lemma fixed_applyPendingUpdates:
  "m_startCell (applyPendingUpdates s) = m_startCell s"
  "m_goalCell (applyPendingUpdates s) = m_goalCell s"
  "m_map (applyPendingUpdates s) = m_map s"
proof -
  have "config (foldl updateVertex (s\<lparr>m_pendingUpdates := []\<rparr>) cs) = config (s\<lparr>m_pendingUpdates := []\<rparr>)" for cs
    by simp
  then have c: "m_startCell (foldl updateVertex (s\<lparr>m_pendingUpdates := []\<rparr>) cs) = m_startCell s
     \<and> m_goalCell (foldl updateVertex (s\<lparr>m_pendingUpdates := []\<rparr>) cs) = m_goalCell s
     \<and> m_map (foldl updateVertex (s\<lparr>m_pendingUpdates := []\<rparr>) cs) = m_map s" for cs
    by (simp add: config_def)
  show "m_startCell (applyPendingUpdates s) = m_startCell s"
    "m_goalCell (applyPendingUpdates s) = m_goalCell s"
    "m_map (applyPendingUpdates s) = m_map s"
    using c by (simp_all add: applyPendingUpdates_def Let_def)
qed

lemma fixed_updateVertex:
  "m_startCell (updateVertex s c) = m_startCell s"
  "m_goalCell (updateVertex s c) = m_goalCell s"
  "m_map (updateVertex s c) = m_map s"
  "m_initialized (updateVertex s c) = m_initialized s"
  using config_updateVertex [of s c] by (simp_all add: config_def)

lemma initialized_applyPendingUpdates: "m_initialized (applyPendingUpdates s) = m_initialized s"
proof -
  have "m_initialized (foldl updateVertex (s\<lparr>m_pendingUpdates := []\<rparr>) cs) = m_initialized s" for cs
    using config_foldl_updateVertex [of "s\<lparr>m_pendingUpdates := []\<rparr>" cs] by (simp add: config_def)
  then show ?thesis by (simp add: applyPendingUpdates_def Let_def)
qed

lemma fixed_preSearch:
  "m_startCell (preSearch s) = m_startCell s"
  "m_goalCell (preSearch s) = m_goalCell s"
  "m_map (preSearch s) = m_map s"
  "m_initialized (preSearch s)"
proof -
  have i: "m_startCell (initializePlanner s) = m_startCell s" "m_goalCell (initializePlanner s) = m_goalCell s"
    "m_map (initializePlanner s) = m_map s" "m_initialized (initializePlanner s)"
    using config_initializePlanner [of s] by (simp_all add: config_def)
  show "m_startCell (preSearch s) = m_startCell s" "m_goalCell (preSearch s) = m_goalCell s"
    "m_map (preSearch s) = m_map s" "m_initialized (preSearch s)"
    by (simp_all add: preSearch_def Let_def fixed_updateVertex fixed_applyPendingUpdates
        initialized_applyPendingUpdates i)
qed

lemma fixed_computeShortestPath:
  assumes "computeShortestPath tie s = Some s'"
  shows "m_startCell s' = m_startCell s" "m_goalCell s' = m_goalCell s" "m_map s' = m_map s"
    "m_initialized s' = m_initialized s"
  using config_computeShortestPath [OF assms] by (simp_all add: config_def)

lemma plannerInv_reset: "plannerInv (resetPlannerState s)"
  by (simp add: plannerInv_def nonneg_def tableOk_def resetPlannerState_def g_def rhs_def)

lemma plannerInv_cong:
  assumes "m_nodeInfo s' = m_nodeInfo s" "m_openTable s' = m_openTable s" "m_goalCell s' = m_goalCell s"
    "m_initialized s' \<longrightarrow> m_initialized s"
  shows "plannerInv s \<Longrightarrow> plannerInv s'"
  using assms by (simp add: plannerInv_def nonneg_def tableOk_def goalDone_def g_def rhs_def)

lemma plannerInv_computePath:
  assumes "plannerInv s" "computePath tie s = Some (s', p)"
  shows "plannerInv s'"
proof (cases "isValidStartGoal s")
  case False
  then show ?thesis using assms by (simp add: computePath_def)
next
  case True
  then have csp: "computeShortestPath tie (preSearch s) = Some s'"
    using assms(2) by (auto simp: computePath_def split: option.splits)
  have "coreInv s'" using csp preSearch_shape [OF assms(1)] by (rule csp_result_coreInv)
  then show ?thesis by (simp add: plannerInv_def coreInv_def)
qed

lemma plannerInv_applyOp:
  assumes "plannerInv s" "applyOp tie s opn = Some s'"
  shows "plannerInv s'"
proof (cases opn)
  case (SetMap grid)
  then have s': "s' = setMap s grid" using assms(2) by (simp add: applyOp_def)
  have r1: "plannerInv ((resetPlannerState (s\<lparr>m_map := grid, m_hasMap := True\<rparr>))\<lparr>m_pendingUpdates := []\<rparr>)"
    by (rule plannerInv_cong [OF _ _ _ _ plannerInv_reset]) (simp_all add: resetPlannerState_def)
  have r2: "plannerInv ((resetPlannerState (s\<lparr>m_map := grid, m_pendingUpdates := []\<rparr>))\<lparr>m_hasMap := True\<rparr>)"
    by (rule plannerInv_cong [OF _ _ _ _ plannerInv_reset]) (simp_all add: resetPlannerState_def)
  have r3: "plannerInv (s\<lparr>m_pendingUpdates := pu, m_map := grid, m_hasMap := True\<rparr>)" for pu
    by (rule plannerInv_cong [OF _ _ _ _ assms(1)]) simp_all
  show ?thesis unfolding s' setMap_def Let_def using r1 r2 r3 by simp
next
  case (SetStart position)
  show ?thesis
  proof (cases "setStart s position")
    case (Inl e)
    then show ?thesis using assms SetStart by (simp add: applyOp_def)
  next
    case (Inr s1)
    then have "s' = s1" using assms(2) SetStart by (simp add: applyOp_def)
    moreover have "m_nodeInfo s1 = m_nodeInfo s \<and> m_openTable s1 = m_openTable s
        \<and> m_goalCell s1 = m_goalCell s \<and> m_initialized s1 = m_initialized s"
      using Inr by (auto simp: setStart_def Let_def split: if_splits)
    ultimately show ?thesis using plannerInv_cong [OF _ _ _ _ assms(1), of s'] by simp
  qed
next
  case (SetGoal position)
  show ?thesis
  proof (cases "setGoal s position")
    case (Inl e)
    then show ?thesis using assms SetGoal by (simp add: applyOp_def)
  next
    case (Inr s1)
    then have "s' = s1" using assms(2) SetGoal by (simp add: applyOp_def)
    moreover have "m_nodeInfo s1 = m_nodeInfo s \<and> m_openTable s1 = m_openTable s \<and> \<not> m_initialized s1"
      using Inr by (auto simp: setGoal_def split: if_splits)
    ultimately show ?thesis using assms(1)
      by (simp add: plannerInv_def nonneg_def tableOk_def g_def rhs_def)
  qed
next
  case ComputePath
  then obtain p where "computePath tie s = Some (s', p)" using assms(2) by (auto simp: applyOp_def)
  then show ?thesis using assms(1) plannerInv_computePath by blast
qed

lemma plannerInv_newPlanner: "plannerInv newPlanner"
  unfolding newPlanner_def by (rule plannerInv_reset)

lemma reachable_plannerInv: "reachable tie s \<Longrightarrow> plannerInv s"
  by (induction rule: reachable.induct) (simp_all add: plannerInv_newPlanner plannerInv_applyOp)

lemma isTrav_inBounds: "isTrav s c \<Longrightarrow> isCellWithinBounds (m_map s) c"
  by (auto simp: isTrav_def isTraversableCell_def split: if_splits)

lemma runOps_reachable:
  assumes "reachable tie s" "runOps tie s opns = Some s'"
  shows "reachable tie s'"
  using assms
proof (induction opns arbitrary: s)
  case Nil
  then show ?case by simp
next
  case (Cons opn opns)
  then obtain s1 where "applyOp tie s opn = Some s1" "runOps tie s1 opns = Some s'"
    by (auto split: option.splits)
  then show ?case using Cons.IH Cons.prems(1) reachable.applied by blast
qed

subsection \<open>The steps of an extracted path\<close>

lemma stepsOk_snoc:
  "cells \<noteq> [] \<Longrightarrow> stepsOk grid (cells @ [b]) = (stepsOk grid cells \<and> cornerRule grid (last cells) b)"
proof (induction cells)
  case Nil
  then show ?case by simp
next
  case (Cons a cells)
  show ?case
  proof (cases cells)
    case Nil
    then show ?thesis by simp
  next
    case (Cons c cs)
    then show ?thesis using Cons.IH by auto
  qed
qed

lemma getNeighbors_cornerRule:
  assumes "n \<in> set (getNeighbors s c)"
  shows "cornerRule (m_map s) c n"
proof -
  obtain off where off: "off \<in> set offsets" "neighborOk s c off" "n = addCell c off"
    using assms by (auto simp: getNeighbors_def)
  have "fst c \<noteq> fst n \<and> snd c \<noteq> snd n \<longleftrightarrow> fst off \<noteq> 0 \<and> snd off \<noteq> 0"
    by (simp add: off(3) addCell_def)
  then show ?thesis
    using off unfolding cornerRule_def
    by (auto simp: neighborOk_def Let_def addCell_def isTrav_def split: if_splits)
qed

lemma foldl_bestStep:
  "snd (foldl (bestStep s cur) b nbs) \<in> set nbs \<or> foldl (bestStep s cur) b nbs = b"
proof (induction nbs arbitrary: b)
  case Nil
  then show ?case by simp
next
  case (Cons n nbs)
  have "bestStep s cur b n = b \<or> snd (bestStep s cur b n) = n"
    by (simp add: bestStep_def Let_def)
  then show ?case using Cons.IH [of "bestStep s cur b n"] by auto
qed

lemma extractCells_steps:
  assumes "extractCells s n cur cells = Some cells'" and "stepsOk (m_map s) cells"
    and "cells \<noteq> []" and "last cells = cur"
  shows "stepsOk (m_map s) cells' \<and> hd cells' = hd cells \<and> cells' \<noteq> []"
  using assms
proof (induction n arbitrary: cur cells)
  case 0
  then show ?case by simp
next
  case (Suc n)
  show ?case
  proof (cases "cur = m_goalCell s")
    case True
    then show ?thesis using Suc.prems by simp
  next
    case False
    define best where "best = foldl (bestStep s cur) (PInf, cur) (getNeighbors s cur)"
    have ok: "snd best \<noteq> cur" and rec: "extractCells s n (snd best) (cells @ [snd best]) = Some cells'"
      using Suc.prems(1) False
      by (auto simp: Let_def best_def [symmetric] split: if_splits)
    have "snd best \<in> set (getNeighbors s cur)"
      using foldl_bestStep [of s cur "(PInf, cur)" "getNeighbors s cur"] ok by (auto simp: best_def)
    then have "cornerRule (m_map s) cur (snd best)" by (rule getNeighbors_cornerRule)
    then have "stepsOk (m_map s) (cells @ [snd best])"
      using Suc.prems(2,3,4) by (simp add: stepsOk_snoc)
    then have "stepsOk (m_map s) cells' \<and> hd cells' = hd (cells @ [snd best]) \<and> cells' \<noteq> []"
      using rec by (intro Suc.IH) simp_all
    then show ?thesis using Suc.prems(3) by simp
  qed
qed

lemma computePath_steps:
  assumes "computePath tie s = Some (s', p)" and "success p"
  shows "m_map s' = m_map s \<and>
     (\<exists>cells. waypoints p = map center cells \<and> cells \<noteq> [] \<and> hd cells = m_startCell s'
        \<and> last cells = m_goalCell s' \<and> stepsOk (m_map s) cells)"
proof -
  have valid: "isValidStartGoal s" using assms by (auto simp: computePath_def emptyPath_def split: if_splits)
  then have csp: "computeShortestPath tie (preSearch s) = Some s'" and p: "p = postSearch s'"
    using assms(1) by (auto simp: computePath_def split: option.splits)
  have m: "m_map s' = m_map s" using fixed_computeShortestPath(3) [OF csp] by (simp add: fixed_preSearch)
  obtain cells where ex: "extractCells s' (cellCount (m_metadata (m_map s')) + 1) (m_startCell s') [m_startCell s'] = Some cells"
    and l: "last cells = m_goalCell s'" and w: "waypoints p = map center cells"
    using assms(2) unfolding p postSearch_def Let_def emptyPath_def
    by (auto split: if_splits option.splits)
  have "stepsOk (m_map s') cells \<and> hd cells = hd [m_startCell s'] \<and> cells \<noteq> []"
    using ex by (rule extractCells_steps) simp_all
  then show ?thesis using m l w by auto
qed

section \<open>A start that is the goal\<close>

text \<open>
  C10. On a planner reached from a fresh one by \<open>setMap\<close>, \<open>setStart\<close>, \<open>setGoal\<close> and
  \<open>computePath\<close>, with a map, a start and a goal set, the start cell equal to the goal cell
  and that cell traversable, \<open>computePath\<close> returns, and its path is successful with the
  centre of the start cell as its one waypoint.
\<close>

theorem computePath_start_is_goal:
  assumes "reachable tie s"
    and "m_hasMap s" and "m_hasStart s" and "m_hasGoal s"
    and "m_startCell s = m_goalCell s" and "isTrav s (m_goalCell s)"
  shows "\<exists>s'. computePath tie s =
           Some (s', \<lparr>style = Polyline, waypoints = [center (m_startCell s)],
                      exploredCells = m_expandedNodes s', success = True\<rparr>)"
proof -
  have valid: "isValidStartGoal s"
    using assms(2-6) isTrav_inBounds [OF assms(6)] by (simp add: isValidStartGoal_def)
  have inv: "plannerInv s" using assms(1) by (rule reachable_plannerInv)
  have shape: "coreInv (preSearch s) \<or> initShape (preSearch s)" using inv by (rule preSearch_shape)
  have sg: "m_startCell (preSearch s) = m_goalCell (preSearch s)"
    using assms(5) by (simp add: fixed_preSearch)
  obtain s' where csp: "computeShortestPath tie (preSearch s) = Some s'"
    using csp_terminates [OF shape sg] by blast
  have "coreInv s'" using csp shape by (rule csp_result_coreInv)
  then have gd: "goalDone s'" by (simp add: coreInv_def)
  have st: "m_startCell s' = m_startCell s" and gl: "m_goalCell s' = m_startCell s"
    using fixed_computeShortestPath [OF csp] assms(5) by (simp_all add: fixed_preSearch)
  have fin: "isfinite (rhs s' (m_startCell s'))"
    using gd by (simp add: goalDone_def st gl isfinite_def)
  have "postSearch s' = \<lparr>style = Polyline, waypoints = [center (m_startCell s)],
                      exploredCells = m_expandedNodes s', success = True\<rparr>"
    using fin by (simp add: postSearch_def Let_def st gl emptyPath_def)
  then show ?thesis using valid csp by (simp add: computePath_def)
qed

theorem computePath_start_is_goal_witness:
  "\<exists>s'. computePath firstTie
      (the (runOps firstTie newPlanner
         [SetMap \<lparr>m_metadata = \<lparr>width = 2, height = 1, resolution = 1\<rparr>, m_cells = [0, 0]\<rparr>,
          SetStart (CellPosition (1, 0)), SetGoal (CellPosition (1, 0))]))
    = Some (s', \<lparr>style = Polyline, waypoints = [(3/2, 1/2)],
                 exploredCells = m_expandedNodes s', success = True\<rparr>)"
proof -
  define opns where "opns = [SetMap \<lparr>m_metadata = \<lparr>width = 2, height = 1, resolution = 1\<rparr>, m_cells = [0, 0]\<rparr>,
          SetStart (CellPosition (1, 0)), SetGoal (CellPosition (1, 0))]"
  define s where "s = the (runOps firstTie newPlanner opns)"
  have run: "runOps firstTie newPlanner opns = Some s"
    by (simp add: s_def opns_def applyOp_def setStart_def setGoal_def isCell_def CellPosition_def Let_def)
  have r: "reachable firstTie s" using reachable.constructed run by (rule runOps_reachable)
  have f: "m_hasMap s" "m_hasStart s" "m_hasGoal s" "m_startCell s = (1, 0)" "m_goalCell s = (1, 0)"
    "m_map s = \<lparr>m_metadata = \<lparr>width = 2, height = 1, resolution = 1\<rparr>, m_cells = [0, 0]\<rparr>"
    by (simp_all add: s_def opns_def applyOp_def setStart_def setGoal_def setMap_def isCell_def
        CellPosition_def newPlanner_def resetPlannerState_def Let_def)
  have t: "isTrav s (m_goalCell s)"
    by (simp add: f isTrav_def isTraversableCell_def isCellWithinBounds_def isMissing_def gridAt_def
        s_missingData_def Let_def)
  show ?thesis
    using computePath_start_is_goal [OF r f(1,2,3) _ t] f(4,5)
    by (simp add: s_def opns_def center_def)
qed

section \<open>Invariants of the A* planner\<close>

lemma astarInvD:
  assumes "astarInv grid sc st"
  shows "n \<in> set (openSet st) \<Longrightarrow> gScore st (n_cell n) \<noteq> None"
    and "cameFrom st sc = None" and "gScore st sc = Some 0"
    and "cameFrom st c = Some p \<Longrightarrow> \<exists>x y. gScore st c = Some x \<and> gScore st p = Some y \<and> y < x"
    and "cameFrom st c = Some p \<Longrightarrow> cornerRule grid p c"
    and "gScore st c = Some x \<Longrightarrow> 0 \<le> x"
    and "gScore st c = Some x \<Longrightarrow> isCellWithinBounds grid c"
    and "gScore st c = Some x \<Longrightarrow> c \<noteq> sc \<Longrightarrow> cameFrom st c \<noteq> None"
  using assms unfolding astarInv_def by blast+

lemma astarInvI:
  assumes "\<And>n. n \<in> set (openSet st) \<Longrightarrow> gScore st (n_cell n) \<noteq> None"
    and "cameFrom st sc = None" and "gScore st sc = Some 0"
    and "\<And>c p. cameFrom st c = Some p \<Longrightarrow> \<exists>x y. gScore st c = Some x \<and> gScore st p = Some y \<and> y < x"
    and "\<And>c p. cameFrom st c = Some p \<Longrightarrow> cornerRule grid p c"
    and "\<And>c x. gScore st c = Some x \<Longrightarrow> 0 \<le> x"
    and "\<And>c x. gScore st c = Some x \<Longrightarrow> isCellWithinBounds grid c"
    and "\<And>c x. gScore st c = Some x \<Longrightarrow> c \<noteq> sc \<Longrightarrow> cameFrom st c \<noteq> None"
  shows "astarInv grid sc st"
  unfolding astarInv_def using assms by blast

lemma relax_eq:
  assumes "gScore st (n_cell current) = Some gc"
  shows "relax grid goalCell current st off =
     (let nb = addCell (n_cell current) off;
          tg = gc + traversalCost grid nb (fst off \<noteq> 0 \<and> snd off \<noteq> 0)
      in if isCellWithinBounds grid nb \<and> isTraversableCell grid nb
            \<and> (fst off \<noteq> 0 \<and> snd off \<noteq> 0 \<longrightarrow>
                 isCellWithinBounds grid (fst (n_cell current) + fst off, snd (n_cell current))
               \<and> isCellWithinBounds grid (fst (n_cell current), snd (n_cell current) + snd off)
               \<and> isTraversableCell grid (fst (n_cell current) + fst off, snd (n_cell current))
               \<and> isTraversableCell grid (fst (n_cell current), snd (n_cell current) + snd off))
            \<and> (gScore st nb = None \<or> tg < the (gScore st nb))
         then relaxed grid goalCell (n_cell current) gc st off else st)"
  using assms by (auto simp: relax_def relaxed_def Let_def)

lemma offsets_nonzero: "off \<in> set offsets \<Longrightarrow> addCell c off \<noteq> c"
  by (auto simp: offsets_def addCell_def prod_eq_iff)

lemma relaxed_inv:
  assumes inv: "astarInv grid sc st" and gc: "gScore st cur = Some gc" and off: "off \<in> set offsets"
    and inb: "isCellWithinBounds grid (addCell cur off)"
    and diag: "fst off \<noteq> 0 \<and> snd off \<noteq> 0 \<longrightarrow>
                 isCellWithinBounds grid (fst cur + fst off, snd cur)
               \<and> isCellWithinBounds grid (fst cur, snd cur + snd off)
               \<and> isTraversableCell grid (fst cur + fst off, snd cur)
               \<and> isTraversableCell grid (fst cur, snd cur + snd off)"
    and better: "gScore st (addCell cur off) = None
       \<or> gc + traversalCost grid (addCell cur off) (fst off \<noteq> 0 \<and> snd off \<noteq> 0) < the (gScore st (addCell cur off))"
  shows "astarInv grid sc (relaxed grid goalCell cur gc st off)"
proof -
  define nb where "nb = addCell cur off"
  define tg where "tg = gc + traversalCost grid nb (fst off \<noteq> 0 \<and> snd off \<noteq> 0)"
  define st' where "st' = relaxed grid goalCell cur gc st off"
  have cf: "cameFrom st' = (cameFrom st)(nb \<mapsto> cur)" and gs: "gScore st' = (gScore st)(nb \<mapsto> tg)"
    and os: "set (openSet st') = insert \<lparr>n_cell = nb, n_g = tg, n_f = tg + computeHeuristic nb goalCell\<rparr> (set (openSet st))"
    by (simp_all add: st'_def relaxed_def Let_def nb_def tg_def)
  have gc0: "0 \<le> gc" using astarInvD(6) [OF inv gc] .
  have lt: "gc < tg" using traversalCost_pos [of grid nb "fst off \<noteq> 0 \<and> snd off \<noteq> 0"] by (simp add: tg_def)
  have ne: "nb \<noteq> cur" using off by (simp add: nb_def offsets_nonzero)
  have better': "gScore st nb = None \<or> tg < the (gScore st nb)" using better by (simp add: nb_def tg_def)
  have nsc: "nb \<noteq> sc"
  proof
    assume "nb = sc"
    then have "gScore st nb = Some 0" using astarInvD(3) [OF inv] by simp
    then show False using better' lt gc0 by simp
  qed
  have "astarInv grid sc st'"
  proof (rule astarInvI)
    fix n assume "n \<in> set (openSet st')"
    then show "gScore st' (n_cell n) \<noteq> None"
      using astarInvD(1) [OF inv, of n] by (auto simp: os gs)
  next
    show "cameFrom st' sc = None" using astarInvD(2) [OF inv] nsc by (simp add: cf)
  next
    show "gScore st' sc = Some 0" using astarInvD(3) [OF inv] nsc by (simp add: gs)
  next
    fix c p assume a: "cameFrom st' c = Some p"
    show "\<exists>x y. gScore st' c = Some x \<and> gScore st' p = Some y \<and> y < x"
    proof (cases "c = nb")
      case True
      then have "p = cur" using a by (simp add: cf)
      then show ?thesis using True ne gc lt by (simp add: gs)
    next
      case False
      then have old: "cameFrom st c = Some p" using a by (simp add: cf)
      then obtain x y where xy: "gScore st c = Some x" "gScore st p = Some y" "y < x"
        using astarInvD(4) [OF inv] by blast
      show ?thesis
      proof (cases "p = nb")
        case True
        then have "tg < y" using better' xy(2) by simp
        then show ?thesis using False True xy by (simp add: gs)
      next
        case pn: False
        then show ?thesis using False xy by (simp add: gs)
      qed
    qed
  next
    fix c p assume a: "cameFrom st' c = Some p"
    show "cornerRule grid p c"
    proof (cases "c = nb")
      case True
      then have p: "p = cur" using a by (simp add: cf)
      have "\<exists>o'\<in>set offsets. nb = addCell cur o'" using off nb_def by blast
      then show ?thesis using diag unfolding cornerRule_def True p
        by (simp add: nb_def addCell_def)
    next
      case False
      then show ?thesis using a astarInvD(5) [OF inv] by (simp add: cf)
    qed
  next
    fix c x assume a: "gScore st' c = Some x"
    then show "0 \<le> x" using astarInvD(6) [OF inv, of c x] gc0 lt by (auto simp: gs split: if_splits)
  next
    fix c x assume a: "gScore st' c = Some x"
    then show "isCellWithinBounds grid c" using astarInvD(7) [OF inv, of c x] inb
      by (auto simp: gs nb_def split: if_splits)
  next
    fix c x assume a: "gScore st' c = Some x" and "c \<noteq> sc"
    then show "cameFrom st' c \<noteq> None" using astarInvD(8) [OF inv, of c x]
      by (auto simp: gs cf split: if_splits)
  qed
  then show ?thesis by (simp add: st'_def)
qed

lemma relax_inv:
  assumes inv: "astarInv grid sc st" and gc: "gScore st (n_cell current) = Some gc" and off: "off \<in> set offsets"
  shows "astarInv grid sc (relax grid goalCell current st off)"
    and "gScore (relax grid goalCell current st off) (n_cell current) = Some gc"
    and "closedSet (relax grid goalCell current st off) = closedSet st"
    and "a_returned (relax grid goalCell current st off) = a_returned st"
    and "a_explored (relax grid goalCell current st off) = a_explored st"
    and "length (openSet (relax grid goalCell current st off)) \<le> length (openSet st) + 1"
proof -
  show "astarInv grid sc (relax grid goalCell current st off)"
    unfolding relax_eq [OF gc] Let_def
    using inv relaxed_inv [OF inv gc off, where goalCell = goalCell] by simp
  have ne: "addCell (n_cell current) off \<noteq> n_cell current" using off by (rule offsets_nonzero)
  show "gScore (relax grid goalCell current st off) (n_cell current) = Some gc"
    unfolding relax_eq [OF gc] Let_def using gc ne by (simp add: relaxed_def Let_def)
  show "closedSet (relax grid goalCell current st off) = closedSet st"
    unfolding relax_eq [OF gc] Let_def by (simp add: relaxed_def Let_def)
  show "a_returned (relax grid goalCell current st off) = a_returned st"
    unfolding relax_eq [OF gc] Let_def by (simp add: relaxed_def Let_def)
  show "a_explored (relax grid goalCell current st off) = a_explored st"
    unfolding relax_eq [OF gc] Let_def by (simp add: relaxed_def Let_def)
  show "length (openSet (relax grid goalCell current st off)) \<le> length (openSet st) + 1"
    unfolding relax_eq [OF gc] Let_def by (simp add: relaxed_def Let_def)
qed

lemma foldl_relax_inv:
  assumes "astarInv grid sc st" and "gScore st (n_cell current) = Some gc" and "set offs \<subseteq> set offsets"
  shows "astarInv grid sc (foldl (relax grid goalCell current) st offs)
     \<and> closedSet (foldl (relax grid goalCell current) st offs) = closedSet st
     \<and> a_returned (foldl (relax grid goalCell current) st offs) = a_returned st
     \<and> a_explored (foldl (relax grid goalCell current) st offs) = a_explored st
     \<and> length (openSet (foldl (relax grid goalCell current) st offs)) \<le> length (openSet st) + length offs"
  using assms
proof (induction offs arbitrary: st)
  case Nil
  then show ?case by simp
next
  case (Cons off offs)
  have off: "off \<in> set offsets" and sub: "set offs \<subseteq> set offsets" using Cons.prems(3) by simp_all
  note r = relax_inv [OF Cons.prems(1,2) off, of goalCell]
  have IH: "astarInv grid sc (foldl (relax grid goalCell current) (relax grid goalCell current st off) offs)
     \<and> closedSet (foldl (relax grid goalCell current) (relax grid goalCell current st off) offs)
         = closedSet (relax grid goalCell current st off)
     \<and> a_returned (foldl (relax grid goalCell current) (relax grid goalCell current st off) offs)
         = a_returned (relax grid goalCell current st off)
     \<and> a_explored (foldl (relax grid goalCell current) (relax grid goalCell current st off) offs)
         = a_explored (relax grid goalCell current st off)
     \<and> length (openSet (foldl (relax grid goalCell current) (relax grid goalCell current st off) offs))
         \<le> length (openSet (relax grid goalCell current st off)) + length offs"
    using r(1) r(2) sub by (rule Cons.IH)
  show ?case using IH r(3,4,5,6) by simp
qed

lemma finite_inBounds: "finite {c. isCellWithinBounds grid c}"
proof (rule finite_subset)
  show "{c. isCellWithinBounds grid c}
      \<subseteq> {0 ..< int (width (m_metadata grid))} \<times> {0 ..< int (height (m_metadata grid))}"
    by (auto simp: isCellWithinBounds_def split: if_splits)
  show "finite ({0 ..< int (width (m_metadata grid))} \<times> {0 ..< int (height (m_metadata grid))})"
    by simp
qed

lemma nodeTop_index:
  assumes "xs \<noteq> []"
  shows "topIndex tie nodeBefore xs < length xs"
proof -
  have "\<not> nodeBefore a a" for a by (simp add: nodeBefore_def)
  moreover have "nodeBefore a b \<Longrightarrow> nodeBefore b c \<Longrightarrow> nodeBefore a c" for a b c
    by (simp add: nodeBefore_def)
  ultimately show ?thesis using topIndex_minimal [of nodeBefore xs tie] assms by blast
qed

lemma set_removeAt: "set (removeAt i xs) \<subseteq> set xs"
  using set_take_subset [of i xs] set_drop_subset [of "Suc i" xs] by (auto simp: removeAt_def)

lemma length_removeAt: "i < length xs \<Longrightarrow> length (removeAt i xs) = length xs - 1"
  by (auto simp: removeAt_def)

lemma astarInv_cong:
  assumes "astarInv grid sc st" and "set (openSet st') \<subseteq> set (openSet st)"
    and "cameFrom st' = cameFrom st" and "gScore st' = gScore st"
  shows "astarInv grid sc st'"
  using assms unfolding astarInv_def by (simp add: subset_iff)

lemma card_unclosed:
  assumes "isCellWithinBounds grid c" "c \<notin> cls"
  shows "card {c'. isCellWithinBounds grid c' \<and> c' \<notin> insert c cls}
       < card {c'. isCellWithinBounds grid c' \<and> c' \<notin> cls}"
proof (rule psubset_card_mono)
  show "finite {c'. isCellWithinBounds grid c' \<and> c' \<notin> cls}"
    using finite_inBounds [of grid] by simp
  show "{c'. isCellWithinBounds grid c' \<and> c' \<notin> insert c cls}
      \<subset> {c'. isCellWithinBounds grid c' \<and> c' \<notin> cls}"
    using assms by blast
qed

lemma astarBody_inv:
  assumes inv: "astarInv grid sc st" and cond: "astarCond st"
  shows "astarInv grid sc (astarBody tie grid gl st)"
    and "a_returned (astarBody tie grid gl st) \<longrightarrow> gScore (astarBody tie grid gl st) gl \<noteq> None"
    and "astarMeasure grid (astarBody tie grid gl st) < astarMeasure grid st"
proof -
  define i where "i = topIndex tie nodeBefore (openSet st)"
  define current where "current = openSet st ! i"
  define st1 where "st1 = st\<lparr>openSet := removeAt i (openSet st)\<rparr>"
  define st2 where "st2 = st1\<lparr>closedSet := insert (n_cell current) (closedSet st1),
                         a_explored := a_explored st1 @ [n_cell current]\<rparr>"
  have ne: "openSet st \<noteq> []" and nr: "\<not> a_returned st" using cond by (simp_all add: astarCond_def)
  have i: "i < length (openSet st)" unfolding i_def using ne by (rule nodeTop_index)
  then have mem: "current \<in> set (openSet st)" by (simp add: current_def)
  then obtain gc where gc: "gScore st (n_cell current) = Some gc"
    using astarInvD(1) [OF inv] by blast
  have inb: "isCellWithinBounds grid (n_cell current)" using astarInvD(7) [OF inv gc] .
  have body: "astarBody tie grid gl st =
     (if n_cell current \<in> closedSet st1 then st1
      else if n_cell current = gl then st2\<lparr>a_returned := True\<rparr>
      else foldl (relax grid gl current) st2 offsets)"
    unfolding st2_def st1_def current_def i_def by (simp add: astarBody_def Let_def)
  have inv1: "astarInv grid sc st1"
    using inv by (rule astarInv_cong) (simp_all add: st1_def set_removeAt)
  have inv2: "astarInv grid sc st2"
    using inv1 by (rule astarInv_cong) (simp_all add: st2_def)
  have gc2: "gScore st2 (n_cell current) = Some gc" using gc by (simp add: st2_def st1_def)
  have len1: "length (openSet st1) = length (openSet st) - 1" using i by (simp add: st1_def length_removeAt)
  have pos: "0 < length (openSet st)" using ne by simp
  note fr = foldl_relax_inv [OF inv2 gc2 subset_refl, of gl]
  have len8: "length offsets = 8" by (simp add: offsets_def)
  show "astarInv grid sc (astarBody tie grid gl st)"
    unfolding body using inv1 inv2 fr astarInv_cong [OF inv2, of "st2\<lparr>a_returned := True\<rparr>"] by simp
  have nr1: "\<not> a_returned st1" and nr2: "\<not> a_returned st2" using nr by (simp_all add: st1_def st2_def)
  have nrf: "\<not> a_returned (foldl (relax grid gl current) st2 offsets)" using fr nr2 by simp
  show "a_returned (astarBody tie grid gl st) \<longrightarrow> gScore (astarBody tie grid gl st) gl \<noteq> None"
  proof (cases "n_cell current \<in> closedSet st1")
    case True
    then show ?thesis unfolding body using nr1 by simp
  next
    case False
    show ?thesis
    proof (cases "n_cell current = gl")
      case True
      then show ?thesis unfolding body using False gc2 by simp
    next
      case ng: False
      then show ?thesis unfolding body using False nrf by simp
    qed
  qed
  show "astarMeasure grid (astarBody tie grid gl st) < astarMeasure grid st"
  proof (cases "n_cell current \<in> closedSet st1")
    case True
    then show ?thesis unfolding body astarMeasure_def using len1 pos by (simp add: st1_def)
  next
    case False
    then have nc: "n_cell current \<notin> closedSet st" by (simp add: st1_def)
    have cl2: "closedSet st2 = insert (n_cell current) (closedSet st)" by (simp add: st2_def st1_def)
    have len2: "length (openSet st2) = length (openSet st) - 1" using len1 by (simp add: st2_def)
    note cd = card_unclosed [OF inb nc]
    show ?thesis
    proof (cases "n_cell current = gl")
      case True
      then show ?thesis unfolding body astarMeasure_def using False cd cl2 len2 pos by simp
    next
      case ng: False
      have "closedSet (foldl (relax grid gl current) st2 offsets) = closedSet st2"
        and "length (openSet (foldl (relax grid gl current) st2 offsets)) \<le> length (openSet st2) + 8"
        using fr len8 by simp_all
      then show ?thesis unfolding body astarMeasure_def using False ng cd cl2 len2 pos by simp
    qed
  qed
qed

lemma astar_loop_terminates:
  assumes "astarInv grid sc st0"
  shows "\<exists>t. while_option astarCond (astarBody tie grid gl) st0 = Some t"
proof (rule measure_while_option_Some [where P = "astarInv grid sc" and f = "astarMeasure grid"])
  show "astarInv grid sc st0" using assms .
next
  fix st
  assume inv: "astarInv grid sc st" and c: "astarCond st"
  show "astarInv grid sc (astarBody tie grid gl st)
        \<and> astarMeasure grid (astarBody tie grid gl st) < astarMeasure grid st"
    using astarBody_inv(1,3) [OF inv c, of tie gl] by simp
qed

lemma astar_loop_inv:
  assumes run: "while_option astarCond (astarBody tie grid gl) st0 = Some t"
    and "astarInv grid sc st0" and "\<not> a_returned st0"
  shows "astarInv grid sc t \<and> (a_returned t \<longrightarrow> gScore t gl \<noteq> None)"
proof (rule while_option_rule [where
      P = "\<lambda>st. astarInv grid sc st \<and> (a_returned st \<longrightarrow> gScore st gl \<noteq> None)", OF _ run])
  show "astarInv grid sc st0 \<and> (a_returned st0 \<longrightarrow> gScore st0 gl \<noteq> None)" using assms(2,3) by simp
next
  fix st
  assume P: "astarInv grid sc st \<and> (a_returned st \<longrightarrow> gScore st gl \<noteq> None)" and c: "astarCond st"
  then have inv: "astarInv grid sc st" by simp
  show "astarInv grid sc (astarBody tie grid gl st)
           \<and> (a_returned (astarBody tie grid gl st) \<longrightarrow> gScore (astarBody tie grid gl st) gl \<noteq> None)"
    using astarBody_inv(1,2) [OF inv c, of tie gl] by simp
qed

subsection \<open>The path that follows \<open>cameFrom\<close>\<close>

lemma stepsOk_Cons:
  "xs \<noteq> [] \<Longrightarrow> stepsOk grid (p # xs) = (cornerRule grid p (hd xs) \<and> stepsOk grid xs)"
  by (cases xs) simp_all

lemma card_below:
  assumes inv: "astarInv grid sc st" and p: "gScore st p = Some y" and c: "gScore st c = Some x" and lt: "y < x"
  shows "card {c'. isCellWithinBounds grid c' \<and> (\<exists>z. gScore st c' = Some z \<and> z < y)}
       < card {c'. isCellWithinBounds grid c' \<and> (\<exists>z. gScore st c' = Some z \<and> z < x)}"
proof (rule psubset_card_mono)
  show "finite {c'. isCellWithinBounds grid c' \<and> (\<exists>z. gScore st c' = Some z \<and> z < x)}"
    using finite_inBounds [of grid] by simp
  have "isCellWithinBounds grid p" using astarInvD(7) [OF inv p] .
  then have "p \<in> {c'. isCellWithinBounds grid c' \<and> (\<exists>z. gScore st c' = Some z \<and> z < x)}"
    using p lt by simp
  moreover have "p \<notin> {c'. isCellWithinBounds grid c' \<and> (\<exists>z. gScore st c' = Some z \<and> z < y)}"
    using p by simp
  moreover have "{c'. isCellWithinBounds grid c' \<and> (\<exists>z. gScore st c' = Some z \<and> z < y)}
      \<subseteq> {c'. isCellWithinBounds grid c' \<and> (\<exists>z. gScore st c' = Some z \<and> z < x)}"
    using lt by auto
  ultimately show "{c'. isCellWithinBounds grid c' \<and> (\<exists>z. gScore st c' = Some z \<and> z < y)}
      \<subset> {c'. isCellWithinBounds grid c' \<and> (\<exists>z. gScore st c' = Some z \<and> z < x)}"
    by blast
qed

lemma reconstructPath_ok:
  assumes inv: "astarInv grid sc st" and gl: "gScore st gl \<noteq> None"
  shows "\<exists>cells. reconstructPath (cameFrom st) gl = Some cells \<and> cells \<noteq> []
     \<and> hd cells = sc \<and> last cells = gl \<and> stepsOk grid cells"
proof -
  define b where "b = (\<lambda>s :: ivec2 \<times> ivec2 list. cameFrom st (fst s) \<noteq> None)"
  define c where "c = (\<lambda>s :: ivec2 \<times> ivec2 list. (the (cameFrom st (fst s)), snd s @ [the (cameFrom st (fst s))]))"
  define P where "P = (\<lambda>s :: ivec2 \<times> ivec2 list. gScore st (fst s) \<noteq> None \<and> snd s \<noteq> []
      \<and> last (snd s) = fst s \<and> hd (snd s) = gl \<and> stepsOk grid (rev (snd s)))"
  define f where "f = (\<lambda>s :: ivec2 \<times> ivec2 list.
      card {c'. isCellWithinBounds grid c' \<and> (\<exists>z. gScore st c' = Some z \<and> z < the (gScore st (fst s)))})"
  have step: "P (c s) \<and> f (c s) < f s" if Ps: "P s" and bs: "b s" for s
  proof -
    obtain cur acc where s: "s = (cur, acc)" by (cases s)
    obtain p where p: "cameFrom st cur = Some p" using bs by (auto simp: b_def s)
    obtain x y where xy: "gScore st cur = Some x" "gScore st p = Some y" "y < x"
      using astarInvD(4) [OF inv p] by blast
    have cr: "cornerRule grid p cur" using astarInvD(5) [OF inv p] .
    have acc: "acc \<noteq> []" "last acc = cur" "hd acc = gl" "stepsOk grid (rev acc)"
      using Ps by (simp_all add: P_def s)
    have "stepsOk grid (p # rev acc)" using acc cr by (simp add: stepsOk_Cons hd_rev)
    then have "P (c s)" using xy acc by (simp add: P_def c_def s p)
    moreover have "f (c s) < f s" using card_below [OF inv xy(2,1,3)] by (simp add: f_def c_def s p xy)
    ultimately show ?thesis by simp
  qed
  have P0: "P (gl, [gl])" using gl by (simp add: P_def)
  obtain t where t: "while_option b c (gl, [gl]) = Some t"
    using measure_while_option_Some [of P b c f "(gl, [gl])"] step P0 by blast
  have Pt: "P t" using step P0 by (intro while_option_rule [where P = P, OF _ t]) simp_all
  have nb: "\<not> b t" using while_option_stop [OF t] .
  obtain cur acc where tt: "t = (cur, acc)" by (cases t)
  have "cameFrom st cur = None" using nb by (cases "cameFrom st cur") (simp_all add: b_def tt)
  moreover obtain x where "gScore st cur = Some x" using Pt by (auto simp: P_def tt)
  ultimately have cur: "cur = sc" using astarInvD(8) [OF inv, of cur x] by blast
  have "reconstructPath (cameFrom st) gl = Some (rev acc)"
    using t by (simp add: reconstructPath_def b_def c_def tt)
  moreover have "rev acc \<noteq> []" "hd (rev acc) = sc" "last (rev acc) = gl" "stepsOk grid (rev acc)"
    using Pt cur by (simp_all add: P_def tt hd_rev last_rev)
  ultimately show ?thesis by blast
qed

lemma astarInv_init:
  assumes "isCellWithinBounds grid sc"
  shows "astarInv grid sc \<lparr>openSet = [\<lparr>n_cell = sc, n_g = 0, n_f = h\<rparr>], cameFrom = Map.empty,
            gScore = [sc \<mapsto> 0], fScore = [sc \<mapsto> h], closedSet = {}, a_explored = [],
            a_returned = False\<rparr>"
  using assms by (intro astarInvI) (auto split: if_splits)

lemma solve_ok:
  assumes "isCell (the (p_start p))" and "isCell (the (p_goal p))"
    and "grid = p_map p" and "sc = cell (the (p_start p))" and "gl = cell (the (p_goal p))"
  shows "\<exists>path'. solve tie p path = Some (Inr path') \<and>
      (if \<not> isCellWithinBounds grid sc \<or> \<not> isCellWithinBounds grid gl
          \<or> \<not> isTraversableCell grid sc \<or> \<not> isTraversableCell grid gl
       then waypoints path' = [] \<and> exploredCells path' = []
       else if sc = gl then waypoints path' = [center sc] \<and> exploredCells path' = [sc]
       else waypoints path' = [] \<or>
            (\<exists>cells. waypoints path' = map center cells \<and> cells \<noteq> [] \<and> hd cells = sc
                \<and> last cells = gl \<and> stepsOk grid cells))"
proof (cases "\<not> isCellWithinBounds grid sc \<or> \<not> isCellWithinBounds grid gl
          \<or> \<not> isTraversableCell grid sc \<or> \<not> isTraversableCell grid gl")
  case True
  then show ?thesis using assms unfolding solve_def Let_def by auto
next
  case ok: False
  show ?thesis
  proof (cases "sc = gl")
    case True
    then show ?thesis using ok assms unfolding solve_def Let_def by auto
  next
    case False
    define st0 where "st0 = \<lparr>openSet = [\<lparr>n_cell = sc, n_g = 0, n_f = computeHeuristic sc gl\<rparr>],
                     cameFrom = Map.empty,
                     gScore = [sc \<mapsto> 0],
                     fScore = [sc \<mapsto> computeHeuristic sc gl],
                     closedSet = {}, a_explored = [], a_returned = False\<rparr>"
    have inv0: "astarInv grid sc st0" unfolding st0_def using ok by (intro astarInv_init) simp
    have nr0: "\<not> a_returned st0" by (simp add: st0_def)
    obtain t where t: "while_option astarCond (astarBody tie grid gl) st0 = Some t"
      using astar_loop_terminates [OF inv0] by blast
    have invt: "astarInv grid sc t" and ret: "a_returned t \<longrightarrow> gScore t gl \<noteq> None"
      using astar_loop_inv [OF t inv0 nr0] by simp_all
    have eq: "solve tie p path =
        (if a_returned t then
           (case reconstructPath (cameFrom t) gl of
              None \<Rightarrow> None
            | Some cells \<Rightarrow>
                Some (Inr (path\<lparr>exploredCells := a_explored t, waypoints := map center cells\<rparr>)))
         else Some (Inr (path\<lparr>exploredCells := a_explored t, waypoints := []\<rparr>)))"
      using ok False assms t unfolding solve_def Let_def st0_def by simp
    show ?thesis
    proof (cases "a_returned t")
      case True
      then obtain cells where "reconstructPath (cameFrom t) gl = Some cells" "cells \<noteq> []"
        "hd cells = sc" "last cells = gl" "stepsOk grid cells"
        using reconstructPath_ok [OF invt, of gl] ret by blast
      then show ?thesis using ok False True unfolding eq by auto
    next
      case nr: False
      then show ?thesis using ok False unfolding eq by simp
    qed
  qed
qed

lemma astar_steps:
  assumes "astarComputePath tie p = Some (Inr path)" and "success path"
  shows "\<exists>cells. waypoints path = map center cells \<and> stepsOk (p_map p) cells"
proof -
  have cfg: "ensureConfigured p = None"
    using assms(1) by (auto simp: astarComputePath_def split: option.splits)
  obtain path0 where s: "solve tie p emptyPath = Some (Inr path0)"
    and p: "path = path0\<lparr>success := (waypoints path0 \<noteq> [])\<rparr>"
    using assms(1) cfg by (auto simp: astarComputePath_def split: option.splits sum.splits)
  have cells: "isCell (the (p_start p))" "isCell (the (p_goal p))"
    using s unfolding solve_def Let_def by (auto split: if_splits)
  obtain path' where s': "solve tie p emptyPath = Some (Inr path')"
    and r: "if \<not> isCellWithinBounds (p_map p) (cell (the (p_start p)))
          \<or> \<not> isCellWithinBounds (p_map p) (cell (the (p_goal p)))
          \<or> \<not> isTraversableCell (p_map p) (cell (the (p_start p)))
          \<or> \<not> isTraversableCell (p_map p) (cell (the (p_goal p)))
       then waypoints path' = [] \<and> exploredCells path' = []
       else if cell (the (p_start p)) = cell (the (p_goal p))
       then waypoints path' = [center (cell (the (p_start p)))] \<and> exploredCells path' = [cell (the (p_start p))]
       else waypoints path' = [] \<or>
            (\<exists>cells. waypoints path' = map center cells \<and> cells \<noteq> [] \<and> hd cells = cell (the (p_start p))
                \<and> last cells = cell (the (p_goal p)) \<and> stepsOk (p_map p) cells)"
    using solve_ok [OF cells refl refl refl, of tie emptyPath] by blast
  have e: "path' = path0" using s s' by simp
  have ne: "waypoints path0 \<noteq> []" using assms(2) p by simp
  have w: "waypoints path = waypoints path0" using p by simp
  show ?thesis
  proof (cases "cell (the (p_start p)) = cell (the (p_goal p))")
    case True
    then have "waypoints path0 = map center [cell (the (p_start p))]"
      using r ne unfolding e by (auto split: if_splits)
    moreover have "stepsOk (p_map p) [cell (the (p_start p))]" by simp
    ultimately show ?thesis unfolding w by blast
  next
    case False
    then show ?thesis using r ne unfolding e w by (auto split: if_splits)
  qed
qed

section \<open>The contract of the A* planner\<close>

text \<open>
  C2. On a configured planner (a map of positive width and height, a start and a goal, both
  of kind \<open>Cell\<close>) \<open>computePath\<close> of the A* planner returns a path, for every choice the heap
  makes among equal nodes. The path is either successful, with waypoints that begin with the
  centre of the start cell and end with the centre of the goal cell, or unsuccessful with no
  waypoints. When the start or the goal is out of bounds or not traversable, it is
  unsuccessful and both the waypoints and the explored cells are empty. When the start is
  the goal, a cell in bounds and traversable, it is successful with the centre of the start
  as its one waypoint and the start as its one explored cell.
\<close>

theorem astarComputePath_contract:
  assumes "ensureConfigured p = None"
    and "isCell (the (p_start p))" and "isCell (the (p_goal p))"
    and "grid = p_map p" and "sc = cell (the (p_start p))" and "gl = cell (the (p_goal p))"
  shows "\<exists>path. astarComputePath tie p = Some (Inr path)
     \<and> (success path \<and> waypoints path \<noteq> [] \<and> hd (waypoints path) = center sc
           \<and> last (waypoints path) = center gl
         \<or> \<not> success path \<and> waypoints path = [])
     \<and> (\<not> (isCellWithinBounds grid sc \<and> isCellWithinBounds grid gl
             \<and> isTraversableCell grid sc \<and> isTraversableCell grid gl)
          \<longrightarrow> \<not> success path \<and> waypoints path = [] \<and> exploredCells path = [])
     \<and> (isCellWithinBounds grid sc \<and> isTraversableCell grid sc \<and> sc = gl
          \<longrightarrow> success path \<and> waypoints path = [center sc] \<and> exploredCells path = [sc])"
proof -
  obtain path' where s: "solve tie p emptyPath = Some (Inr path')"
    and r: "if \<not> isCellWithinBounds grid sc \<or> \<not> isCellWithinBounds grid gl
          \<or> \<not> isTraversableCell grid sc \<or> \<not> isTraversableCell grid gl
       then waypoints path' = [] \<and> exploredCells path' = []
       else if sc = gl then waypoints path' = [center sc] \<and> exploredCells path' = [sc]
       else waypoints path' = [] \<or>
            (\<exists>cells. waypoints path' = map center cells \<and> cells \<noteq> [] \<and> hd cells = sc
                \<and> last cells = gl \<and> stepsOk grid cells)"
    using solve_ok [OF assms(2-6), of tie emptyPath] by blast
  define path where "path = path'\<lparr>success := (waypoints path' \<noteq> [])\<rparr>"
  have c: "astarComputePath tie p = Some (Inr path)"
    using assms(1) s by (simp add: astarComputePath_def path_def)
  have f: "waypoints path = waypoints path'" "exploredCells path = exploredCells path'"
    "success path = (waypoints path' \<noteq> [])" by (simp_all add: path_def)
  have 1: "success path \<and> waypoints path \<noteq> [] \<and> hd (waypoints path) = center sc
           \<and> last (waypoints path) = center gl
         \<or> \<not> success path \<and> waypoints path = []"
    using r unfolding f by (auto simp: hd_map last_map split: if_splits)
  have 2: "\<not> (isCellWithinBounds grid sc \<and> isCellWithinBounds grid gl
             \<and> isTraversableCell grid sc \<and> isTraversableCell grid gl)
          \<longrightarrow> \<not> success path \<and> waypoints path = [] \<and> exploredCells path = []"
    using r unfolding f by (auto split: if_splits)
  have 3: "isCellWithinBounds grid sc \<and> isTraversableCell grid sc \<and> sc = gl
          \<longrightarrow> success path \<and> waypoints path = [center sc] \<and> exploredCells path = [sc]"
    using r unfolding f by (auto split: if_splits)
  show ?thesis using c 1 2 3 by blast
qed

theorem astarComputePath_contract_witness:
  "\<exists>path. astarComputePath firstTie
       \<lparr>p_map = \<lparr>m_metadata = \<lparr>width = 2, height = 2, resolution = 1\<rparr>, m_cells = [0, 0, 0, 0]\<rparr>,
        p_start = Some (CellPosition (0, 0)), p_goal = Some (CellPosition (1, 1))\<rparr> = Some (Inr path)
     \<and> success path \<and> waypoints path \<noteq> [] \<and> hd (waypoints path) = (1/2, 1/2)
     \<and> last (waypoints path) = (3/2, 3/2)"
proof -
  define p where "p = \<lparr>p_map = \<lparr>m_metadata = \<lparr>width = 2, height = 2, resolution = 1\<rparr>, m_cells = [0, 0, 0, 0]\<rparr>,
        p_start = Some (CellPosition (0, 0)), p_goal = Some (CellPosition (1, 1))\<rparr>"
  have run: "astarComputePath firstTie p = Some (Inr \<lparr>style = Polyline,
        waypoints = [(1/2, 1/2), (3/2, 3/2)], exploredCells = [(0, 0), (1, 1)], success = True\<rparr>)"
    unfolding p_def by code_simp
  have cfg: "ensureConfigured p = None" "isCell (the (p_start p))" "isCell (the (p_goal p))"
    "cell (the (p_start p)) = (0, 0)" "cell (the (p_goal p)) = (1, 1)"
    by (simp_all add: p_def ensureConfigured_def isCell_def CellPosition_def)
  show ?thesis
    using astarComputePath_contract [OF cfg(1,2,3) refl refl refl, of firstTie] run
    unfolding cfg(4,5) p_def [symmetric] by (auto simp: center_def)
qed

section \<open>The corner rule along the returned paths\<close>

text \<open>
  C4. The waypoints of a successful path of either planner are the centres of a sequence of
  cells in which every step is one of the eight moves, and every diagonal step from
  \<open>(x, y)\<close> to \<open>(x + dx, y + dy)\<close> has both \<open>(x + dx, y)\<close> and \<open>(x, y + dy)\<close> in bounds and
  traversable in the grid of the planner.
\<close>

theorem diagonal_corner_rule:
  "(astarComputePath tie p = Some (Inr path) \<and> success path \<longrightarrow>
      (\<exists>cells. waypoints path = map center cells \<and> stepsOk (p_map p) cells))
   \<and> (computePath tie' s = Some (s', path') \<and> success path' \<longrightarrow>
      (\<exists>cells. waypoints path' = map center cells \<and> stepsOk (m_map s) cells))"
  using astar_steps [of tie p path] computePath_steps [of tie' s s' path'] by blast

theorem diagonal_corner_rule_witness:
  "(\<exists>path cells. astarComputePath firstTie
       \<lparr>p_map = \<lparr>m_metadata = \<lparr>width = 2, height = 2, resolution = 1\<rparr>, m_cells = [0, 0, 0, 0]\<rparr>,
        p_start = Some (CellPosition (0, 0)), p_goal = Some (CellPosition (1, 1))\<rparr> = Some (Inr path)
      \<and> success path \<and> waypoints path = [(1/2, 1/2), (3/2, 3/2)] \<and> waypoints path = map center cells
      \<and> stepsOk \<lparr>m_metadata = \<lparr>width = 2, height = 2, resolution = 1\<rparr>, m_cells = [0, 0, 0, 0]\<rparr> cells)
   \<and> (\<exists>s' path cells. computePath firstTie
        (the (runOps firstTie newPlanner
           [SetMap \<lparr>m_metadata = \<lparr>width = 2, height = 2, resolution = 1\<rparr>, m_cells = [0, 0, 0, 0]\<rparr>,
            SetStart (CellPosition (0, 0)), SetGoal (CellPosition (1, 1))])) = Some (s', path)
      \<and> success path \<and> waypoints path = [(1/2, 1/2), (3/2, 3/2)] \<and> waypoints path = map center cells
      \<and> stepsOk \<lparr>m_metadata = \<lparr>width = 2, height = 2, resolution = 1\<rparr>, m_cells = [0, 0, 0, 0]\<rparr> cells)"
proof -
  define gr where "gr = \<lparr>m_metadata = \<lparr>width = 2, height = 2, resolution = 1\<rparr>, m_cells = [0, 0, 0, 0 :: real]\<rparr>"
  define p where "p = \<lparr>p_map = gr, p_start = Some (CellPosition (0, 0)), p_goal = Some (CellPosition (1, 1))\<rparr>"
  define s where "s = the (runOps firstTie newPlanner
           [SetMap gr, SetStart (CellPosition (0, 0)), SetGoal (CellPosition (1, 1))])"
  define pa where "pa = \<lparr>style = Polyline,
        waypoints = [(1/2, 1/2), (3/2, 3/2 :: real)], exploredCells = [(0, 0), (1, 1)], success = True\<rparr>"
  define pd where "pd = \<lparr>style = Polyline,
        waypoints = [(1/2, 1/2), (3/2, 3/2 :: real)], exploredCells = [(1, 1), (0, 0)], success = True\<rparr>"
  have a: "astarComputePath firstTie p = Some (Inr pa)"
    unfolding p_def gr_def pa_def by code_simp
  have "map_option snd (computePath firstTie s) = Some pd"
    unfolding s_def gr_def pd_def by code_simp
  then obtain s' where d: "computePath firstTie s = Some (s', pd)" by auto
  have m: "m_map s = gr" "p_map p = gr"
    by (simp_all add: s_def p_def applyOp_def setStart_def setGoal_def setMap_def isCell_def
        CellPosition_def newPlanner_def resetPlannerState_def Let_def)
  have w: "success pa" "success pd" "waypoints pa = [(1/2, 1/2), (3/2, 3/2)]"
    "waypoints pd = [(1/2, 1/2), (3/2, 3/2)]" by (simp_all add: pa_def pd_def)
  show ?thesis
    using diagonal_corner_rule [of firstTie p pa firstTie s s' pd] a d w
    unfolding m p_def [symmetric] s_def [symmetric] gr_def [symmetric] by auto
qed

section \<open>A replan after a change of weight\<close>



end
